theory Spec2Isabelle
  imports Main "HOL-Library.Word"
begin

section \<open>Data model (gol.h)\<close>

text \<open>
  The engine is C. The integer widths are those of the usual LP64 targets:
  \<^verbatim>\<open>short int\<close> (the type \<^verbatim>\<open>gol_pos\<close>) has 16 bits, \<^verbatim>\<open>int\<close> and
  \<^verbatim>\<open>unsigned int\<close> have 32, \<^verbatim>\<open>size_t\<close> has 64. Signed values are read with
  \<open>sint\<close> and compared with \<open><s\<close> and \<open>\<le>s\<close>.

  \<^verbatim>\<open>
  typedef unsigned int gol_err;
  #define GOL_ERR_OK 0
  #define GOL_ERR_INIT 1
  #define GOL_ERR_NOMEM 2

  typedef short int gol_pos;
  struct gameoflife {
      gol_pos rows, cols;
      bool *board;
  };
  \<close>

  A pointer to a board is an address or \<open>None\<close> for \<^verbatim>\<open>NULL\<close>. The heap maps
  the address of every live allocated block to the cells it holds, so two structs
  share storage exactly when their \<open>board\<close> fields hold the same address.
\<close>

type_synonym gol_pos = "16 word"

type_synonym addr = nat

type_synonym heap = "addr \<rightharpoonup> bool list"

datatype gol_err = GOL_ERR_OK | GOL_ERR_INIT | GOL_ERR_NOMEM

record gameoflife =
  rows :: gol_pos
  cols :: gol_pos
  board :: "addr option"

section \<open>Memory accesses\<close>

text \<open>
  C leaves a read or write through \<^verbatim>\<open>NULL\<close>, through a pointer to a freed block or
  beyond the end of a block undefined. The model makes every such access the
  value \<open>None\<close>; every operation that touches memory therefore returns an
  \<open>option\<close>, and \<open>None\<close> means that the C program has no defined behaviour.
\<close>

definition load :: "heap \<Rightarrow> addr option \<Rightarrow> nat \<Rightarrow> bool option" where
  "load h b i =
     (case b of
        None \<Rightarrow> None
      | Some p \<Rightarrow>
          (case h p of
             None \<Rightarrow> None
           | Some cs \<Rightarrow> if i < length cs then Some (cs ! i) else None))"

definition store :: "heap \<Rightarrow> addr option \<Rightarrow> nat \<Rightarrow> bool \<Rightarrow> heap option" where
  "store h b i v =
     (case b of
        None \<Rightarrow> None
      | Some p \<Rightarrow>
          (case h p of
             None \<Rightarrow> None
           | Some cs \<Rightarrow> if i < length cs then Some (h(p \<mapsto> cs[i := v])) else None))"

section \<open>Loops over positions\<close>

text \<open>
  Every loop of the engine over a row or a column has the shape
  \<^verbatim>\<open>for (gol_pos v = 0; v < hi; v++) { body }\<close>. The body either falls through to
  the next iteration with a new state (\<open>Next\<close>), leaves the enclosing function with
  \<^verbatim>\<open>return e\<close> (\<open>Return\<close>), or has no defined behaviour (\<open>None\<close>). The counter is
  a 16-bit word, compared signed, as in the source.
\<close>

datatype 's ctl = Next 's | Return gol_err 's

function for_pos ::
  "gol_pos \<Rightarrow> gol_pos \<Rightarrow> (gol_pos \<Rightarrow> 's \<Rightarrow> 's ctl option) \<Rightarrow> 's \<Rightarrow> 's ctl option" where
  "for_pos v hi body s =
     (if v <s hi then
        (case body v s of
           None \<Rightarrow> None
         | Some (Return e s') \<Rightarrow> Some (Return e s')
         | Some (Next s') \<Rightarrow> for_pos (v + 1) hi body s')
      else Some (Next s))"
  by pat_completeness auto

termination for_pos
proof (relation "measure (\<lambda>(v, hi, body, s). nat (sint hi - sint v))")
  show "wf (measure (\<lambda>(v, hi, body, s). nat (sint hi - sint v)))"
    by simp
next
  fix v hi :: gol_pos and body :: "gol_pos \<Rightarrow> 's \<Rightarrow> 's ctl option" and s x2 x1
  assume lt: "v <s hi"
  have "sint v < sint hi"
    using lt by (simp add: word_sless_alt)
  moreover have "sint hi \<le> 32767" and "- 32768 \<le> sint v"
    using sint_lt [of hi] sint_ge [of v] by simp_all
  ultimately have "sint (v + 1) = sint v + 1"
    by (simp add: sint_word_ariths signed_take_bit_int_eq_self)
  with \<open>sint v < sint hi\<close>
  show "((v + 1, hi, body, x1), (v, hi, body, s))
          \<in> measure (\<lambda>(v, hi, body, s). nat (sint hi - sint v))"
    by simp
qed

declare for_pos.simps [simp del]

section \<open>The engine (gol.c)\<close>

subsection \<open>Index computation\<close>

text \<open>
  \<^verbatim>\<open>
  static inline unsigned int gol_2dto1d(struct gameoflife *game,
                                        const gol_pos x, const gol_pos y) {
      return (y * game->cols) + x;
  }
  \<close>
  The operands are promoted to \<^verbatim>\<open>int\<close>. Three 16-bit values cannot overflow 32 bits
  here (the result lies between \<open>- 2 ^ 30 - 2 ^ 15\<close> and \<open>2 ^ 30\<close>), so the sum is
  the exact integer; the conversion to \<^verbatim>\<open>unsigned int\<close> reduces it modulo \<open>2 ^ 32\<close>.
\<close>

definition gol_2dto1d :: "gameoflife \<Rightarrow> gol_pos \<Rightarrow> gol_pos \<Rightarrow> 32 word" where
  "gol_2dto1d game x y = word_of_int (sint y * sint (cols game) + sint x)"

subsection \<open>Counting live neighbours\<close>

text \<open>The table of relative positions, in the order of the source.\<close>

definition neighbors :: "(gol_pos \<times> gol_pos) list" where
  "neighbors =
     [(- 1, - 1), (- 1, 0), (- 1, 1), (0, - 1), (0, 1), (1, - 1), (1, 0), (1, 1)]"

text \<open>
  \<^verbatim>\<open>
  if (game->board == NULL) return GOL_ERR_INIT;
  int n = 0;
  for (int i = 0; i < sizeof(neighbors) / sizeof(gol_pos[2]); i++) {
      gol_pos nx = x + neighbors[i][0];
      gol_pos ny = y + neighbors[i][1];
      if (nx < 0 || nx >= game->cols || ny < 0 || ny >= game->rows) continue;
      n += game->board[gol_2dto1d(game, nx, ny)];
  }
  *count = n;
  return GOL_ERR_OK;
  \<close>
  The loop over the table is a recursion over the list, with the running count
  \<open>n\<close>. The sums \<open>x + dx\<close> and \<open>y + dy\<close> are computed in \<^verbatim>\<open>int\<close> and stored into
  \<^verbatim>\<open>gol_pos\<close> variables; the conversion keeps the low 16 bits (as the usual
  compilers define it), hence 16-bit word additions. A \<^verbatim>\<open>bool\<close> added to an
  \<^verbatim>\<open>int\<close> counts as 0 or 1.
\<close>

fun countlive_loop ::
  "heap \<Rightarrow> gameoflife \<Rightarrow> gol_pos \<Rightarrow> gol_pos \<Rightarrow> (gol_pos \<times> gol_pos) list \<Rightarrow> int \<Rightarrow> int option"
where
  "countlive_loop h game x y [] n = Some n"
| "countlive_loop h game x y ((dx, dy) # ns) n =
     (let nx = x + dx; ny = y + dy in
      if nx <s 0 \<or> cols game \<le>s nx \<or> ny <s 0 \<or> rows game \<le>s ny
      then countlive_loop h game x y ns n
      else
        (case load h (board game) (unat (gol_2dto1d game nx ny)) of
           None \<Rightarrow> None
         | Some b \<Rightarrow> countlive_loop h game x y ns (n + (if b then 1 else 0))))"

text \<open>
  \<open>Inl e\<close> is the return value \<open>e\<close> with \<^verbatim>\<open>*count\<close> left untouched, \<open>Inr n\<close> is the
  return value \<^verbatim>\<open>GOL_ERR_OK\<close> with \<open>n\<close> stored in \<^verbatim>\<open>*count\<close>.
\<close>

definition gol_countlive ::
  "heap \<Rightarrow> gameoflife \<Rightarrow> gol_pos \<Rightarrow> gol_pos \<Rightarrow> (gol_err + int) option" where
  "gol_countlive h game x y =
     (if board game = None then Some (Inl GOL_ERR_INIT)
      else map_option Inr (countlive_loop h game x y neighbors 0))"

subsection \<open>Allocation and release\<close>

text \<open>
  What \<^verbatim>\<open>calloc\<close> and \<^verbatim>\<open>malloc\<close> return is decided outside the engine, so the
  returned pointer is an argument \<open>a\<close> of the operation that allocates: \<open>None\<close> is
  \<^verbatim>\<open>NULL\<close>, \<open>Some q\<close> is the address of the new block. The standard promises
  that a new block is disjoint from every live one; the theorems below assume
  this of \<open>q\<close> where they need it.

  \<^verbatim>\<open>(size_t)rows * cols\<close> converts both operands to 64 bits with sign extension
  and multiplies modulo \<open>2 ^ 64\<close>.

  \<open>gol_init\<close> takes the struct as it was before the call: on failure nothing has
  been written to it.
  \<^verbatim>\<open>
  size_t sz = (size_t)rows * cols;
  bool *board = (bool *) calloc(sz, sizeof(bool));
  if (board == NULL) return GOL_ERR_NOMEM;
  game->rows = rows;
  game->cols = cols;
  game->board = board;
  return GOL_ERR_OK;
  \<close>
\<close>

definition gol_init ::
  "heap \<Rightarrow> addr option \<Rightarrow> gameoflife \<Rightarrow> gol_pos \<Rightarrow> gol_pos \<Rightarrow> gol_err \<times> gameoflife \<times> heap"
where
  "gol_init h a game r c =
     (let sz = (scast r :: 64 word) * scast c in
      case a of
        None \<Rightarrow> (GOL_ERR_NOMEM, game, h)
      | Some p \<Rightarrow>
          (GOL_ERR_OK,
           \<lparr>rows = r, cols = c, board = Some p\<rparr>,
           h(p \<mapsto> replicate (unat sz) False)))"

text \<open>
  \<^verbatim>\<open>
  if (game->board)
      free(game->board);
  memset(game, 0, sizeof(struct gameoflife));
  return GOL_ERR_OK;
  \<close>
  \<^verbatim>\<open>free\<close> of a pointer that is not the address of a live block has no defined
  behaviour. The \<^verbatim>\<open>memset\<close> clears all three fields.
\<close>

definition gol_free :: "heap \<Rightarrow> gameoflife \<Rightarrow> (gol_err \<times> gameoflife \<times> heap) option" where
  "gol_free h game =
     (let cleared = \<lparr>rows = 0, cols = 0, board = None\<rparr> in
      case board game of
        None \<Rightarrow> Some (GOL_ERR_OK, cleared, h)
      | Some p \<Rightarrow>
          (case h p of
             None \<Rightarrow> None
           | Some cs \<Rightarrow> Some (GOL_ERR_OK, cleared, h(p := None))))"

text \<open>
  \<^verbatim>\<open>
  memcpy(dest, src, sizeof(struct gameoflife));
  if (src->board != NULL) {
      size_t board_len = (size_t)src->cols * src->rows;
      bool *board_copy = (bool *) malloc(board_len * sizeof(bool));
      if (board_copy == NULL) return GOL_ERR_NOMEM;
      memcpy(board_copy, src->board, board_len * sizeof(bool));
      dest->board = board_copy;
  }
  return GOL_ERR_OK;
  \<close>
  The first \<^verbatim>\<open>memcpy\<close> makes \<open>dest\<close> a bitwise copy of \<open>src\<close>, also when the
  allocation then fails. The second reads \<open>board_len\<close> cells of the
  source block, which has no defined behaviour when the block is shorter.
\<close>

definition gol_copy ::
  "heap \<Rightarrow> addr option \<Rightarrow> gameoflife \<Rightarrow> (gol_err \<times> gameoflife \<times> heap) option" where
  "gol_copy h a src =
     (let dest = src in
      case board src of
        None \<Rightarrow> Some (GOL_ERR_OK, dest, h)
      | Some p \<Rightarrow>
          (let board_len = (scast (cols src) :: 64 word) * scast (rows src) in
           case a of
             None \<Rightarrow> Some (GOL_ERR_NOMEM, dest, h)
           | Some q \<Rightarrow>
               (case h p of
                  None \<Rightarrow> None
                | Some cs \<Rightarrow>
                    if unat board_len \<le> length cs
                    then Some (GOL_ERR_OK, dest\<lparr>board := Some q\<rparr>,
                               h(q \<mapsto> take (unat board_len) cs))
                    else None)))"

subsection \<open>Random population\<close>

text \<open>
  \<^verbatim>\<open>
  if (game->board == NULL) return GOL_ERR_INIT;
  for (gol_pos y = 0; y < game->rows; y++) {
      for (gol_pos x = 0; x < game->cols; x++) {
          unsigned int pos = gol_2dto1d(game, x, y);
          game->board[pos] = (bool) (rand() % 2);
      }
  }
  return GOL_ERR_OK;
  \<close>
  \<^verbatim>\<open>rand()\<close> is the C library's generator; \<open>rnd k\<close> is the value of its \<open>k\<close>-th
  call (never negative), and the state of the loops carries the number of calls
  made so far beside the heap.
\<close>

definition gol_populate ::
  "(nat \<Rightarrow> nat) \<Rightarrow> nat \<times> heap \<Rightarrow> gameoflife \<Rightarrow> (gol_err \<times> nat \<times> heap) option" where
  "gol_populate rnd s game =
     (if board game = None then Some (GOL_ERR_INIT, s)
      else
        (case for_pos 0 (rows game)
                (\<lambda>y. for_pos 0 (cols game)
                   (\<lambda>x (k, h).
                      let pos = gol_2dto1d game x y in
                      case store h (board game) (unat pos) (rnd k mod 2 \<noteq> 0) of
                        None \<Rightarrow> None
                      | Some h' \<Rightarrow> Some (Next (Suc k, h')))) s of
           None \<Rightarrow> None
         | Some (Return e s') \<Rightarrow> Some (e, s')
         | Some (Next s') \<Rightarrow> Some (GOL_ERR_OK, s')))"

subsection \<open>The rule and the tick\<close>

text \<open>
  \<^verbatim>\<open>
  static bool gol_cellnext(bool is_alive, int live_neighbors) {
      bool survive = is_alive && live_neighbors >= 2 && live_neighbors <= 3;
      bool reproduce = !is_alive && live_neighbors == 3;
      return survive || reproduce;
  }
  \<close>
\<close>

definition gol_cellnext :: "bool \<Rightarrow> int \<Rightarrow> bool" where
  "gol_cellnext is_alive live_neighbors =
     (let survive = is_alive \<and> live_neighbors \<ge> 2 \<and> live_neighbors \<le> 3;
          reproduce = \<not> is_alive \<and> live_neighbors = 3
      in survive \<or> reproduce)"

text \<open>
  \<^verbatim>\<open>
  gol_err error;
  struct gameoflife copy;
  if ((error = gol_copy(&copy, game)) != GOL_ERR_OK) return error;
  for (gol_pos y = 0; y < game->rows; y++) {
      for (gol_pos x = 0; x < game->cols; x++) {
          unsigned int pos = gol_2dto1d(game, x, y);
          bool is_alive = game->board[pos];
          int live_neighbors;
          if ((error = gol_countlive(&copy, x, y, &live_neighbors)) != GOL_ERR_OK)
              return error;
          game->board[pos] = gol_cellnext(is_alive, live_neighbors);
      }
  }
  gol_free(&copy);
  return GOL_ERR_OK;
  \<close>
  The tick writes through \<^verbatim>\<open>game->board\<close> only; the fields of the struct stay as
  they are, so the result is the status and the heap. The local struct \<open>copy\<close>
  is gone when the function returns; on the early return from inside the loops
  its block is still allocated.
\<close>

definition gol_tick :: "heap \<Rightarrow> addr option \<Rightarrow> gameoflife \<Rightarrow> (gol_err \<times> heap) option" where
  "gol_tick h a game =
     (case gol_copy h a game of
        None \<Rightarrow> None
      | Some (error, copy, h1) \<Rightarrow>
          if error \<noteq> GOL_ERR_OK then Some (error, h1)
          else
            (case for_pos 0 (rows game)
                    (\<lambda>y. for_pos 0 (cols game)
                       (\<lambda>x h.
                          let pos = gol_2dto1d game x y in
                          case load h (board game) (unat pos) of
                            None \<Rightarrow> None
                          | Some is_alive \<Rightarrow>
                              (case gol_countlive h copy x y of
                                 None \<Rightarrow> None
                               | Some (Inl error) \<Rightarrow> Some (Return error h)
                               | Some (Inr live_neighbors) \<Rightarrow>
                                   map_option Next
                                     (store h (board game) (unat pos)
                                        (gol_cellnext is_alive live_neighbors))))) h1 of
               None \<Rightarrow> None
             | Some (Return error h2) \<Rightarrow> Some (error, h2)
             | Some (Next h2) \<Rightarrow>
                 (case gol_free h2 copy of
                    None \<Rightarrow> None
                  | Some (e, copy', h3) \<Rightarrow> Some (GOL_ERR_OK, h3))))"

subsection \<open>Rendering\<close>

text \<open>
  \<^verbatim>\<open>
  if (game->board == NULL) return GOL_ERR_INIT;
  size_t len = ((size_t)game->cols + 1) * game->rows;
  char *str = (char *) malloc(sizeof(char) * (len + 1));
  if (str == NULL) return GOL_ERR_NOMEM;
  char on_char, off_char;
  if (src == NULL) {
      on_char = 'X';
      off_char = 'O';
  } else {
      on_char = src[0];
      off_char = src[1];
  }
  int i = 0;
  for (gol_pos y = 0; y < game->rows; y++) {
      if (y != 0) str[i++] = '\n';
      for (gol_pos x = 0; x < game->cols; x++) {
          unsigned int pos = gol_2dto1d(game, x, y);
          if (game->board[pos] == true) str[i++] = on_char;
          else str[i++] = off_char;
      }
  }
  str[i] = (char)'\0';
  *dest = str;
  return GOL_ERR_OK;
  \<close>
  The output buffer is a fresh \<^verbatim>\<open>malloc\<close> block of \<open>len + 1\<close> bytes, whose content
  is indeterminate until written: a byte is \<open>None\<close> before its first write. The
  argument \<open>ok\<close> says whether \<^verbatim>\<open>malloc\<close> returned a block. \<open>src\<close> is \<^verbatim>\<open>NULL\<close> or
  points to an array of characters; reading past its end has no defined
  behaviour. \<open>Inl e\<close> is the return value \<open>e\<close> with \<^verbatim>\<open>*dest\<close> untouched, \<open>Inr str\<close> the
  return value \<^verbatim>\<open>GOL_ERR_OK\<close> with \<^verbatim>\<open>*dest\<close> pointing to the block \<open>str\<close>. The index
  \<open>i\<close> starts at 0 and only grows, to less than \<open>2 ^ 31\<close>.
\<close>

definition put :: "char option list \<Rightarrow> nat \<Rightarrow> char \<Rightarrow> char option list option" where
  "put str i c = (if i < length str then Some (str[i := Some c]) else None)"

definition src_chars :: "string option \<Rightarrow> (char \<times> char) option" where
  "src_chars src =
     (case src of
        None \<Rightarrow> Some (CHR ''X'', CHR ''O'')
      | Some cs \<Rightarrow> if 2 \<le> length cs then Some (cs ! 0, cs ! 1) else None)"

definition gol_tostring ::
  "heap \<Rightarrow> bool \<Rightarrow> gameoflife \<Rightarrow> string option \<Rightarrow> (gol_err + char option list) option" where
  "gol_tostring h ok game src =
     (if board game = None then Some (Inl GOL_ERR_INIT)
      else
        (let len = ((scast (cols game) :: 64 word) + 1) * scast (rows game) in
         if \<not> ok then Some (Inl GOL_ERR_NOMEM)
         else
           (case src_chars src of
              None \<Rightarrow> None
            | Some (on_char, off_char) \<Rightarrow>
                (case for_pos 0 (rows game)
                        (\<lambda>y (i, str).
                           case (if y \<noteq> 0
                                 then map_option (Pair (Suc i)) (put str i (CHR 0x0A))
                                 else Some (i, str)) of
                             None \<Rightarrow> None
                           | Some s \<Rightarrow>
                               for_pos 0 (cols game)
                                 (\<lambda>x (i, str).
                                    let pos = gol_2dto1d game x y in
                                    case load h (board game) (unat pos) of
                                      None \<Rightarrow> None
                                    | Some b \<Rightarrow>
                                        map_option (\<lambda>str'. Next (Suc i, str'))
                                          (put str i (if b then on_char else off_char))) s)
                        (0, replicate (unat (len + 1)) None) of
                   None \<Rightarrow> None
                 | Some (Return e s) \<Rightarrow> Some (Inl e)
                 | Some (Next (i, str)) \<Rightarrow> map_option Inr (put str i (CHR 0x00))))))"

text \<open>
  The C string a block holds: the characters before the first terminator; there
  is none when an indeterminate byte or the end of the block comes first.
\<close>

fun c_string :: "char option list \<Rightarrow> string option" where
  "c_string [] = None"
| "c_string (None # bs) = None"
| "c_string (Some c # bs) =
     (if c = CHR 0x00 then Some [] else map_option ((#) c) (c_string bs))"

section \<open>Vocabulary of the specification\<close>

text \<open>
  The definitions of this section follow the words of the specification, not the
  code; the theorems compare the two.

  The dimensions as natural numbers, the cell collection of a grid, and what makes
  a grid initialized: it has cell storage, its dimensions are not negative and
  the storage holds \<open>rows * cols\<close> cells.
\<close>

definition nrows :: "gameoflife \<Rightarrow> nat" where
  "nrows game = nat (sint (rows game))"

definition ncols :: "gameoflife \<Rightarrow> nat" where
  "ncols game = nat (sint (cols game))"

definition cells :: "heap \<Rightarrow> gameoflife \<Rightarrow> bool list option" where
  "cells h game = (case board game of None \<Rightarrow> None | Some p \<Rightarrow> h p)"

definition initialized :: "heap \<Rightarrow> gameoflife \<Rightarrow> bool list \<Rightarrow> bool" where
  "initialized h game cs \<longleftrightarrow>
     cells h game = Some cs \<and> 0 \<le>s rows game \<and> 0 \<le>s cols game \<and>
     length cs = nrows game * ncols game"

text \<open>
  The Moore neighbourhood over the integers, without wrap-around: a position
  counts when it lies in \<open>[0, cols) \<times> [0, rows)\<close> and its cell is alive.
\<close>

definition moore :: "(int \<times> int) list" where
  "moore = [(- 1, - 1), (- 1, 0), (- 1, 1), (0, - 1), (0, 1), (1, - 1), (1, 0), (1, 1)]"

definition live_at :: "gameoflife \<Rightarrow> bool list \<Rightarrow> int \<Rightarrow> int \<Rightarrow> bool" where
  "live_at game cs x y \<longleftrightarrow>
     0 \<le> x \<and> x < sint (cols game) \<and> 0 \<le> y \<and> y < sint (rows game) \<and>
     cs ! nat (y * sint (cols game) + x)"

definition live_neighbours :: "gameoflife \<Rightarrow> bool list \<Rightarrow> int \<Rightarrow> int \<Rightarrow> int" where
  "live_neighbours game cs x y =
     int (length (filter (\<lambda>(dx, dy). live_at game cs (x + dx) (y + dy)) moore))"

text \<open>The next generation, every cell computed from the one list \<open>cs\<close>.\<close>

definition next_gen :: "gameoflife \<Rightarrow> bool list \<Rightarrow> bool list" where
  "next_gen game cs =
     map (\<lambda>i. gol_cellnext (cs ! i)
                (live_neighbours game cs (int (i mod ncols game)) (int (i div ncols game))))
       [0..<length cs]"

text \<open>
  The rendered text: one line per row, a line break between adjacent lines and
  nowhere else.
\<close>

fun join_lines :: "string list \<Rightarrow> string" where
  "join_lines [] = []"
| "join_lines [l] = l"
| "join_lines (l # ls) = l @ CHR 0x0A # join_lines ls"

definition render_line :: "char \<Rightarrow> char \<Rightarrow> gameoflife \<Rightarrow> bool list \<Rightarrow> nat \<Rightarrow> string" where
  "render_line a d game cs y =
     map (\<lambda>x. if cs ! (y * ncols game + x) then a else d) [0..<ncols game]"

definition render_text :: "char \<Rightarrow> char \<Rightarrow> gameoflife \<Rightarrow> bool list \<Rightarrow> string" where
  "render_text a d game cs = join_lines (map (render_line a d game cs) [0..<nrows game])"

text \<open>A block of \<open>n\<close> bytes of which the first hold \<open>t\<close> and the others nothing yet.\<close>

definition block :: "nat \<Rightarrow> string \<Rightarrow> char option list" where
  "block n t = map Some t @ replicate (n - length t) None"

text \<open>
  The blinker of the known-pattern scenario on a 5 by 5 grid, in row-major order:
  cell \<open>i\<close> is in row \<open>i div 5\<close> and column \<open>i mod 5\<close>. The horizontal blinker is
  row 2, columns 1 to 3; the vertical one is column 2, rows 1 to 3.
\<close>

definition blinker_horizontal :: "bool list" where
  "blinker_horizontal = map (\<lambda>i. i div 5 = 2 \<and> i mod 5 \<in> {1, 2, 3}) [0..<25]"

definition blinker_vertical :: "bool list" where
  "blinker_vertical = map (\<lambda>i. i mod 5 = 2 \<and> i div 5 \<in> {1, 2, 3}) [0..<25]"

section \<open>Words, loops and indices\<close>

lemma sint16_bounds: "- 32768 \<le> sint (v::16 word) \<and> sint v \<le> 32767"
  using sint_ge [of v] sint_lt [of v] by simp

lemma sint16_add:
  "- 32768 \<le> sint (v::16 word) + sint w \<Longrightarrow> sint v + sint w \<le> 32767 \<Longrightarrow>
   sint (v + w) = sint v + sint w"
  by (simp add: sint_word_ariths signed_take_bit_int_eq_self)

lemma sint16_succ: "sint (v::16 word) < sint (hi::16 word) \<Longrightarrow> sint (v + 1) = sint v + 1"
  using sint16_bounds [of v] sint16_bounds [of hi] sint16_add [of v 1] by simp

lemma for_pos_no_return:
  "(\<And>v s. body v s = None \<or> (\<exists>s'. body v s = Some (Next s'))) \<Longrightarrow>
   for_pos v hi body s = None \<or> (\<exists>s'. for_pos v hi body s = Some (Next s'))"
proof (induction v hi body s rule: for_pos.induct)
  case (1 v hi body s)
  show ?case
  proof (cases "v <s hi")
    case False
    then show ?thesis by (simp add: for_pos.simps [of v])
  next
    case True
    from "1.prems" [of v s] show ?thesis
    proof
      assume "body v s = None"
      with True show ?thesis by (simp add: for_pos.simps [of v])
    next
      assume "\<exists>s'. body v s = Some (Next s')"
      then obtain s' where s': "body v s = Some (Next s')" ..
      from "1.IH" [OF True s' refl "1.prems"] s' True show ?thesis
        by (simp add: for_pos.simps [of v])
    qed
  qed
qed

lemma for_pos_from:
  "(\<And>v s. 0 \<le> sint v \<Longrightarrow> sint v < sint hi \<Longrightarrow> I (nat (sint v)) s \<Longrightarrow>
             \<exists>s'. body v s = Some (Next s') \<and> I (Suc (nat (sint v))) s') \<Longrightarrow>
   0 \<le> sint v \<Longrightarrow> sint v \<le> sint hi \<Longrightarrow> I (nat (sint v)) s \<Longrightarrow>
         \<exists>s'. for_pos v hi body s = Some (Next s') \<and> I (nat (sint hi)) s'"
proof (induction v hi body s rule: for_pos.induct)
  case (1 v hi body s)
  note step = "1.prems"(1)
  show ?case
  proof (cases "v <s hi")
    case False
    with "1.prems" have "sint v = sint hi" by (simp add: word_sless_alt)
    with False "1.prems" show ?thesis by (simp add: for_pos.simps [of v])
  next
    case True
    then have lt: "sint v < sint hi" by (simp add: word_sless_alt)
    from step [OF "1.prems"(2) lt "1.prems"(4)]
    obtain s' where s': "body v s = Some (Next s')" and I': "I (Suc (nat (sint v))) s'"
      by blast
    have suc: "sint (v + 1) = sint v + 1" using lt by (rule sint16_succ)
    have nat_suc: "nat (sint (v + 1)) = Suc (nat (sint v))"
      using suc "1.prems"(2) by simp
    have "\<exists>s''. for_pos (v + 1) hi body s' = Some (Next s'') \<and> I (nat (sint hi)) s''"
    proof (rule "1.IH" [OF True s' refl])
      show "0 \<le> sint (v + 1)" using suc "1.prems"(2) by simp
      show "sint (v + 1) \<le> sint hi" using suc lt by simp
      show "I (nat (sint (v + 1))) s'" using I' nat_suc by simp
    qed (rule step)
    with True s' show ?thesis by (simp add: for_pos.simps [of v])
  qed
qed

lemma for_pos_rule:
  assumes "0 \<le> sint hi" and "I 0 s"
    and "\<And>v s. 0 \<le> sint v \<Longrightarrow> sint v < sint hi \<Longrightarrow> I (nat (sint v)) s \<Longrightarrow>
             \<exists>s'. body v s = Some (Next s') \<and> I (Suc (nat (sint v))) s'"
  shows "\<exists>s'. for_pos 0 hi body s = Some (Next s') \<and> I (nat (sint hi)) s'"
  using for_pos_from [of hi I body 0 s] assms by simp

lemma for_pos_2d:
  fixes r c :: gol_pos
  assumes r: "0 \<le> sint r" and c: "0 \<le> sint c" and init: "I 0 s"
    and step: "\<And>x y s. 0 \<le> sint x \<Longrightarrow> sint x < sint c \<Longrightarrow> 0 \<le> sint y \<Longrightarrow> sint y < sint r \<Longrightarrow>
             I (nat (sint y) * nat (sint c) + nat (sint x)) s \<Longrightarrow>
             \<exists>s'. body y x s = Some (Next s') \<and>
                  I (Suc (nat (sint y) * nat (sint c) + nat (sint x))) s'"
  shows "\<exists>s'. for_pos 0 r (\<lambda>y. for_pos 0 c (body y)) s = Some (Next s') \<and>
              I (nat (sint r) * nat (sint c)) s'"
proof (rule for_pos_rule [where I = "\<lambda>Y. I (Y * nat (sint c))", OF r])
  show "I (0 * nat (sint c)) s" using init by simp
next
  fix y :: gol_pos and s
  assume y: "0 \<le> sint y" "sint y < sint r" and inv: "I (nat (sint y) * nat (sint c)) s"
  have "\<exists>s'. for_pos 0 c (body y) s = Some (Next s') \<and>
             I (nat (sint y) * nat (sint c) + nat (sint c)) s'"
  proof (rule for_pos_rule [where I = "\<lambda>X. I (nat (sint y) * nat (sint c) + X)", OF c])
    show "I (nat (sint y) * nat (sint c) + 0) s" using inv by simp
  next
    fix x :: gol_pos and s
    assume "0 \<le> sint x" "sint x < sint c" "I (nat (sint y) * nat (sint c) + nat (sint x)) s"
    from step [OF this(1,2) y this(3)]
    show "\<exists>s'. body y x s = Some (Next s') \<and>
               I (nat (sint y) * nat (sint c) + Suc (nat (sint x))) s'"
      by simp
  qed
  then show "\<exists>s'. for_pos 0 c (body y) s = Some (Next s') \<and>
                 I (Suc (nat (sint y)) * nat (sint c)) s'"
    by (simp add: add.commute)
qed

lemma dims_bound:
  fixes r c :: gol_pos
  assumes "0 \<le> sint r" "0 \<le> sint c"
  shows "sint r * sint c \<le> 32767 * 32767"
  using assms sint16_bounds [of r] sint16_bounds [of c] by (intro mult_mono) simp_all

lemma unat_word_of_int32:
  assumes "0 \<le> k" "k < 4294967296"
  shows "unat (word_of_int k :: 32 word) = nat k"
proof -
  have "take_bit 32 k = k"
    using assms by (intro take_bit_int_eq_self) simp_all
  moreover have "unat (word_of_int k :: 32 word) = nat (take_bit LENGTH(32) k)"
    by (simp only: unat_eq_nat_uint uint_word_of_int_eq)
  ultimately show ?thesis by simp
qed

lemma unat_word_of_int64:
  assumes "0 \<le> k" "k < 4294967296"
  shows "unat (word_of_int k :: 64 word) = nat k"
proof -
  have "k < 2 ^ 64" using assms by simp
  then have "take_bit 64 k = k"
    using assms by (intro take_bit_int_eq_self) simp_all
  moreover have "unat (word_of_int k :: 64 word) = nat (take_bit LENGTH(64) k)"
    by (simp only: unat_eq_nat_uint uint_word_of_int_eq)
  ultimately show ?thesis by simp
qed

lemma unat_2dto1d:
  assumes "0 \<le> sint x" "0 \<le> sint y" "0 \<le> sint (cols game)"
  shows "unat (gol_2dto1d game x y) = nat (sint y) * nat (sint (cols game)) + nat (sint x)"
proof -
  let ?k = "sint y * sint (cols game) + sint x"
  have "sint y * sint (cols game) \<le> 32767 * 32767"
    using assms by (intro dims_bound)
  with sint16_bounds [of x] have "?k < 4294967296" by simp
  moreover have "0 \<le> ?k" using assms by simp
  ultimately have "unat (word_of_int ?k :: 32 word) = nat ?k"
    by (rule unat_word_of_int32 [rotated])
  also have "\<dots> = nat (sint y) * nat (sint (cols game)) + nat (sint x)"
    using assms by (simp add: nat_add_distrib nat_mult_distrib)
  finally show ?thesis by (simp add: gol_2dto1d_def)
qed

lemma index_in_range:
  fixes X Y R C :: nat
  assumes "X < C" "Y < R"
  shows "Y * C + X < R * C"
proof -
  have "Y * C + X < Suc Y * C" using assms by simp
  also have "\<dots> \<le> R * C" using assms by (intro mult_le_mono1) simp
  finally show ?thesis .
qed

lemma unat_size:
  fixes r c :: gol_pos
  assumes "0 \<le> sint r" "0 \<le> sint c"
  shows "unat ((scast r :: 64 word) * scast c) = nat (sint r) * nat (sint c)"
proof -
  have "(scast r :: 64 word) * scast c = word_of_int (sint r * sint c)"
    by (simp only: scast_eq wi_hom_mult)
  moreover have "sint r * sint c < 4294967296"
    using dims_bound [OF assms] by simp
  moreover have "0 \<le> sint r * sint c" using assms by simp
  ultimately have "unat ((scast r :: 64 word) * scast c) = nat (sint r * sint c)"
    by (simp only: unat_word_of_int64)
  then show ?thesis using assms by (simp add: nat_mult_distrib)
qed

section \<open>The neighbour count\<close>

lemma nb_coord_eq:
  fixes x d c :: gol_pos
  assumes "0 \<le> sint x + sint d" "sint x + sint d < sint c"
  shows "sint (x + d) = sint x + sint d"
  using assms sint16_bounds [of c] by (intro sint16_add) simp_all

lemma nb_coord_in:
  fixes x d c :: gol_pos
  assumes d: "d = - 1 \<or> d = 0 \<or> d = 1"
  shows "(\<not> (x + d) <s 0 \<and> \<not> c \<le>s (x + d)) \<longleftrightarrow> (0 \<le> sint x + sint d \<and> sint x + sint d < sint c)"
proof -
  have sd: "- 1 \<le> sint d" "sint d \<le> 1" using d by auto
  let ?k = "sint x + sint d"
  consider "- 32768 \<le> ?k" "?k \<le> 32767" | "?k = 32768" | "?k = - 32769"
    using sint16_bounds [of x] sd by linarith
  then show ?thesis
  proof cases
    case 1
    then have "sint (x + d) = ?k" by (rule sint16_add)
    then show ?thesis by (auto simp add: word_sless_alt word_sle_eq)
  next
    case 2
    then have "sint (x + d) = - 32768"
      by (simp add: sint_word_ariths)
    with 2 sint16_bounds [of c] show ?thesis by (simp add: word_sless_alt word_sle_eq)
  next
    case 3
    then have "sint (x + d) = 32767"
      by (simp add: sint_word_ariths)
    with 3 sint16_bounds [of c] show ?thesis by (simp add: word_sless_alt word_sle_eq)
  qed
qed

lemma countlive_step:
  fixes x y dx dy :: gol_pos
  assumes b: "board game = Some p" and h: "h p = Some cs"
    and len: "nrows game * ncols game \<le> length cs"
    and dx: "dx = - 1 \<or> dx = 0 \<or> dx = 1" and dy: "dy = - 1 \<or> dy = 0 \<or> dy = 1"
  shows "countlive_loop h game x y ((dx, dy) # ns) n =
         countlive_loop h game x y ns
           (n + (if live_at game cs (sint x + sint dx) (sint y + sint dy) then 1 else 0))"
proof (cases "0 \<le> sint x + sint dx \<and> sint x + sint dx < sint (cols game) \<and>
              0 \<le> sint y + sint dy \<and> sint y + sint dy < sint (rows game)")
  case False
  then have "x + dx <s 0 \<or> cols game \<le>s x + dx \<or> y + dy <s 0 \<or> rows game \<le>s y + dy"
    using nb_coord_in [OF dx, of x "cols game"] nb_coord_in [OF dy, of y "rows game"] by blast
  moreover from False have "\<not> live_at game cs (sint x + sint dx) (sint y + sint dy)"
    by (auto simp: live_at_def)
  ultimately show ?thesis by simp
next
  case True
  then have inb: "\<not> (x + dx <s 0 \<or> cols game \<le>s x + dx \<or> y + dy <s 0 \<or> rows game \<le>s y + dy)"
    using nb_coord_in [OF dx, of x "cols game"] nb_coord_in [OF dy, of y "rows game"] by blast
  have sx: "sint (x + dx) = sint x + sint dx" and sy: "sint (y + dy) = sint y + sint dy"
    using True by (auto intro: nb_coord_eq)
  have c0: "0 \<le> sint (cols game)" using True by linarith
  have idx: "unat (gol_2dto1d game (x + dx) (y + dy)) =
             nat (sint (y + dy)) * ncols game + nat (sint (x + dx))"
    unfolding ncols_def using True sx sy c0 by (intro unat_2dto1d) simp_all
  have "nat (sint (y + dy)) * ncols game + nat (sint (x + dx)) < nrows game * ncols game"
    unfolding ncols_def nrows_def using True sx sy by (intro index_in_range) simp_all
  with len have inr: "nat (sint (y + dy)) * ncols game + nat (sint (x + dx)) < length cs"
    by simp
  have nat_idx: "nat (sint (y + dy)) * ncols game + nat (sint (x + dx)) =
                 nat ((sint y + sint dy) * sint (cols game) + (sint x + sint dx))"
    unfolding ncols_def using True sx sy c0 by (simp add: nat_add_distrib nat_mult_distrib)
  have ld: "load h (board game) (unat (gol_2dto1d game (x + dx) (y + dy))) =
            Some (cs ! nat ((sint y + sint dy) * sint (cols game) + (sint x + sint dx)))"
    using b h inr by (simp add: load_def idx nat_idx)
  have la: "live_at game cs (sint x + sint dx) (sint y + sint dy) \<longleftrightarrow>
            cs ! nat ((sint y + sint dy) * sint (cols game) + (sint x + sint dx))"
    using True by (simp add: live_at_def)
  show ?thesis
    using inb by (simp add: ld la Let_def)
qed

lemma countlive_loop_eq:
  assumes b: "board game = Some p" and h: "h p = Some cs"
    and len: "nrows game * ncols game \<le> length cs"
    and ns: "\<forall>(dx, dy) \<in> set ns. (dx = - 1 \<or> dx = 0 \<or> dx = 1) \<and> (dy = - 1 \<or> dy = 0 \<or> dy = 1)"
  shows "countlive_loop h game x y ns n =
         Some (n + int (length (filter (\<lambda>(dx, dy). live_at game cs (sint x + dx) (sint y + dy))
                                  (map (\<lambda>(dx, dy). (sint dx, sint dy)) ns))))"
  using ns
proof (induction ns arbitrary: n)
  case Nil
  show ?case by simp
next
  case (Cons d ns)
  obtain dx dy where d: "d = (dx, dy)" by (cases d)
  from Cons.prems d have dxy: "dx = - 1 \<or> dx = 0 \<or> dx = 1" "dy = - 1 \<or> dy = 0 \<or> dy = 1"
    and rest: "\<forall>(dx, dy) \<in> set ns. (dx = - 1 \<or> dx = 0 \<or> dx = 1) \<and> (dy = - 1 \<or> dy = 0 \<or> dy = 1)"
    by auto
  show ?case
    unfolding d countlive_step [of game p h cs dx dy, OF b h len dxy] Cons.IH [OF rest]
    by simp
qed

lemma neighbors_moore: "map (\<lambda>(dx, dy). (sint dx, sint dy)) neighbors = moore"
  by (simp add: neighbors_def moore_def)

lemma gol_countlive_eq:
  assumes "initialized h game cs"
  shows "gol_countlive h game x y = Some (Inr (live_neighbours game cs (sint x) (sint y)))"
proof -
  from assms obtain p where b: "board game = Some p" and h: "h p = Some cs"
    and len: "nrows game * ncols game \<le> length cs"
    by (auto simp: initialized_def cells_def split: option.splits)
  have ns: "\<forall>(dx, dy) \<in> set neighbors. (dx = - 1 \<or> dx = 0 \<or> dx = 1) \<and> (dy = - 1 \<or> dy = 0 \<or> dy = 1)"
    by (simp add: neighbors_def)
  show ?thesis
    using b by (simp add: gol_countlive_def countlive_loop_eq [of game p h cs neighbors, OF b h len ns]
        neighbors_moore live_neighbours_def)
qed

lemma live_neighbours_range: "0 \<le> live_neighbours game cs x y \<and> live_neighbours game cs x y \<le> 8"
proof -
  have "length (filter (\<lambda>(dx, dy). live_at game cs (x + dx) (y + dy)) moore) \<le> length moore"
    by (rule length_filter_le)
  then show ?thesis by (simp add: live_neighbours_def moore_def)
qed

section \<open>The tick as one synchronous step\<close>

lemma sweep_step:
  assumes "k < length new" "length new = length old"
  shows "(take k new @ drop k old)[k := new ! k] = take (Suc k) new @ drop (Suc k) old"
proof -
  have "drop k old = old ! k # drop (Suc k) old"
    using assms by (simp add: Cons_nth_drop_Suc)
  moreover have "length (take k new) = k" using assms by simp
  ultimately show ?thesis
    using assms by (simp add: take_Suc_conv_app_nth list_update_append)
qed

lemma sweep_nth:
  assumes "k < length old" "length new = length old"
  shows "(take k new @ drop k old) ! k = old ! k"
  using assms by (simp add: nth_append)

lemma live_neighbours_board [simp]:
  "live_neighbours (game\<lparr>board := b\<rparr>) cs x y = live_neighbours game cs x y"
  by (simp add: live_neighbours_def live_at_def)

lemma initializedD:
  assumes "initialized h game cs"
  obtains p where "board game = Some p" "h p = Some cs" "0 \<le> sint (rows game)"
    "0 \<le> sint (cols game)" "length cs = nrows game * ncols game"
  using assms by (auto simp: initialized_def cells_def word_sle_eq split: option.splits)

lemma gol_copy_initialized:
  assumes init: "initialized h game cs" and b: "board game = Some p"
  shows "gol_copy h (Some q) game = Some (GOL_ERR_OK, game\<lparr>board := Some q\<rparr>, h(q \<mapsto> cs))"
proof -
  from init b have h: "h p = Some cs" and r: "0 \<le> sint (rows game)" and c: "0 \<le> sint (cols game)"
    and len: "length cs = nrows game * ncols game"
    by (auto elim!: initializedD)
  have "unat ((scast (cols game) :: 64 word) * scast (rows game)) = length cs"
    using unat_size [OF c r] len by (simp add: nrows_def ncols_def mult.commute)
  then show ?thesis
    using b h by (simp add: gol_copy_def Let_def)
qed

lemma next_gen_nth:
  assumes "X < ncols game" "Y * ncols game + X < length cs"
  shows "next_gen game cs ! (Y * ncols game + X) =
         gol_cellnext (cs ! (Y * ncols game + X)) (live_neighbours game cs (int X) (int Y))"
  using assms by (simp add: next_gen_def)

lemma length_next_gen [simp]: "length (next_gen game cs) = length cs"
  by (simp add: next_gen_def)

lemma gol_tick_next_gen:
  assumes init: "initialized h game cs" and b: "board game = Some p" and q: "q \<notin> dom h"
  shows "gol_tick h (Some q) game = Some (GOL_ERR_OK, h(p \<mapsto> next_gen game cs))"
proof -
  from init b have hp: "h p = Some cs" and r: "0 \<le> sint (rows game)" and c: "0 \<le> sint (cols game)"
    and len: "length cs = nrows game * ncols game"
    by (auto elim!: initializedD)
  from hp q have pq: "p \<noteq> q" by auto
  let ?copy = "game\<lparr>board := Some q\<rparr>"
  let ?h1 = "h(q \<mapsto> cs)"
  let ?new = "next_gen game cs"
  let ?I = "\<lambda>k hh. hh = ?h1(p \<mapsto> take k ?new @ drop k cs)"
  let ?body = "\<lambda>y x hh.
     let pos = gol_2dto1d game x y in
     case load hh (board game) (unat pos) of
       None \<Rightarrow> None
     | Some is_alive \<Rightarrow>
         (case gol_countlive hh ?copy x y of
            None \<Rightarrow> None
          | Some (Inl error) \<Rightarrow> Some (Return error hh)
          | Some (Inr live_neighbors) \<Rightarrow>
              map_option Next
                (store hh (board game) (unat pos) (gol_cellnext is_alive live_neighbors)))"
  have "\<exists>h2. for_pos 0 (rows game) (\<lambda>y. for_pos 0 (cols game) (?body y)) ?h1 = Some (Next h2) \<and>
             ?I (nat (sint (rows game)) * nat (sint (cols game))) h2"
  proof (rule for_pos_2d [where I = ?I, OF r c])
    show "?I 0 ?h1" using hp pq by (auto simp: fun_eq_iff)
  next
    fix x y :: gol_pos and hh
    assume x: "0 \<le> sint x" "sint x < sint (cols game)"
      and y: "0 \<le> sint y" "sint y < sint (rows game)"
      and inv: "?I (nat (sint y) * nat (sint (cols game)) + nat (sint x)) hh"
    let ?k = "nat (sint y) * ncols game + nat (sint x)"
    let ?cur = "take ?k ?new @ drop ?k cs"
    have hh: "hh = ?h1(p \<mapsto> ?cur)" using inv by (simp add: ncols_def)
    have xc: "nat (sint x) < ncols game" using x by (simp add: ncols_def)
    have k: "?k < length cs"
      unfolding len using x y by (intro index_in_range) (simp_all add: ncols_def nrows_def)
    have pos: "unat (gol_2dto1d game x y) = ?k"
      using unat_2dto1d [OF x(1) y(1) c] by (simp add: ncols_def)
    have ld: "load hh (board game) ?k = Some (cs ! ?k)"
      using k b by (simp add: load_def hh sweep_nth)
    have "initialized hh ?copy cs"
      using init pq by (simp add: initialized_def cells_def hh nrows_def ncols_def)
    then have cl: "gol_countlive hh ?copy x y =
                   Some (Inr (live_neighbours game cs (sint x) (sint y)))"
      by (simp add: gol_countlive_eq)
    have nw: "?new ! ?k = gol_cellnext (cs ! ?k) (live_neighbours game cs (sint x) (sint y))"
      using next_gen_nth [OF xc k] x(1) y(1) by simp
    have st: "store hh (board game) ?k (?new ! ?k) = Some (?h1(p \<mapsto> take (Suc ?k) ?new @ drop (Suc ?k) cs))"
      using k b by (simp add: store_def hh sweep_step)
    have "?body y x hh = Some (Next (?h1(p \<mapsto> take (Suc ?k) ?new @ drop (Suc ?k) cs)))"
      by (simp add: Let_def pos ld cl nw [symmetric] st)
    then show "\<exists>s'. ?body y x hh = Some (Next s') \<and>
              ?I (Suc (nat (sint y) * nat (sint (cols game)) + nat (sint x))) s'"
      by (simp add: ncols_def)
  qed
  then obtain h2 where loops: "for_pos 0 (rows game) (\<lambda>y. for_pos 0 (cols game) (?body y)) ?h1 = Some (Next h2)"
    and h2: "h2 = ?h1(p \<mapsto> ?new)"
    using len by (auto simp: nrows_def ncols_def)
  have fr: "gol_free h2 ?copy = Some (GOL_ERR_OK, \<lparr>rows = 0, cols = 0, board = None\<rparr>, h2(q := None))"
    using pq by (simp add: gol_free_def h2)
  have fin: "h2(q := None) = h(p \<mapsto> ?new)"
    using q pq by (auto simp: h2 fun_eq_iff)
  show ?thesis
    unfolding gol_tick_def gol_copy_initialized [OF init b]
    using loops fr fin by simp
qed

section \<open>The rendered block\<close>

lemma put_block:
  assumes "length t < n"
  shows "put (block n t) (length t) c = Some (block n (t @ [c]))"
proof -
  have "replicate (n - length t) (None :: char option) = None # replicate (n - Suc (length t)) None"
    using assms by (cases "n - length t") simp_all
  then show ?thesis
    using assms by (simp add: put_def block_def list_update_append)
qed

lemma join_lines_snoc:
  "join_lines (ls @ [l]) = (if ls = [] then l else join_lines ls @ CHR 0x0A # l)"
  by (induction ls rule: join_lines.induct) simp_all

lemma length_join_lines:
  "\<forall>l \<in> set ls. length l = n \<Longrightarrow> length (join_lines ls) = length ls * Suc n - 1"
proof (induction ls rule: join_lines.induct)
  case (3 l v va)
  then show ?case by simp
qed simp_all

lemma set_join_lines: "set (join_lines ls) \<subseteq> \<Union> (set ` set ls) \<union> {CHR 0x0A}"
  by (induction ls rule: join_lines.induct) auto

lemma c_string_terminated:
  "CHR 0x00 \<notin> set t \<Longrightarrow> c_string (map Some t @ Some (CHR 0x00) # bs) = Some t"
  by (induction t) auto

lemma unat_buffer_size:
  fixes r c :: gol_pos
  assumes "0 \<le> sint r" "0 \<le> sint c"
  shows "unat (((scast c :: 64 word) + 1) * scast r + 1) = Suc (nat (sint r) * Suc (nat (sint c)))"
proof -
  let ?k = "(sint c + 1) * sint r + 1"
  have "((scast c :: 64 word) + 1) * scast r + 1 = word_of_int ?k"
    by (simp only: scast_eq wi_hom_mult wi_hom_add word_of_int_1 [symmetric])
  moreover have "sint r * sint c \<le> 32767 * 32767" using assms by (rule dims_bound)
  then have "?k < 4294967296"
    using sint16_bounds [of r] by (simp add: algebra_simps)
  moreover have "0 \<le> ?k" using assms by simp
  ultimately have "unat (((scast c :: 64 word) + 1) * scast r + 1) = nat ?k"
    by (simp only: unat_word_of_int64)
  also have "\<dots> = Suc (nat (sint r) * Suc (nat (sint c)))"
    using assms by (simp add: nat_add_distrib nat_mult_distrib algebra_simps)
  finally show ?thesis .
qed

lemma length_render_line [simp]: "length (render_line a d game cs y) = ncols game"
  by (simp add: render_line_def)

lemma length_render_prefix:
  "length (join_lines (map (render_line a d game cs) [0..<Y])) = Y * Suc (ncols game) - 1"
  using length_join_lines [of "map (render_line a d game cs) [0..<Y]" "ncols game"] by simp

lemma gol_tostring_block:
  assumes init: "initialized h game cs" and src: "src_chars src = Some (a, d)"
  shows "gol_tostring h True game src =
         Some (Inr (block (Suc (nrows game * Suc (ncols game)))
                      (render_text a d game cs @ [CHR 0x00])))"
proof -
  from init obtain p where b: "board game = Some p" and hp: "h p = Some cs"
    and r: "0 \<le> sint (rows game)" and c: "0 \<le> sint (cols game)"
    and len: "length cs = nrows game * ncols game"
    by (auto elim!: initializedD)
  let ?R = "nrows game" and ?C = "ncols game"
  let ?cap = "Suc (?R * Suc ?C)"
  let ?line = "render_line a d game cs"
  let ?T = "\<lambda>Y. join_lines (map ?line [0..<Y])"
  let ?pre = "\<lambda>Y. if Y = 0 then [] else ?T Y @ [CHR 0x0A]"
  let ?inner = "\<lambda>y x (i, str).
     case load h (board game) (unat (gol_2dto1d game x y)) of
       None \<Rightarrow> None
     | Some b \<Rightarrow> map_option (\<lambda>str'. Next (Suc i, str')) (put str i (if b then a else d))"
  let ?outer = "\<lambda>y (i, str).
     case (if y \<noteq> 0 then map_option (Pair (Suc i)) (put str i (CHR 0x0A)) else Some (i, str)) of
       None \<Rightarrow> None
     | Some s \<Rightarrow> for_pos 0 (cols game) (?inner y) s"
  let ?J = "\<lambda>Y s. s = (length (?T Y), block ?cap (?T Y))"
  have cap: "unat (((scast (cols game) :: 64 word) + 1) * scast (rows game) + 1) = ?cap"
    using unat_buffer_size [OF r c] by (simp add: nrows_def ncols_def)
  have "\<exists>s'. for_pos 0 (rows game) ?outer (0, replicate ?cap None) = Some (Next s') \<and>
             ?J (nat (sint (rows game))) s'"
  proof (rule for_pos_rule [where I = ?J, OF r])
    show "?J 0 (0, replicate ?cap None)" by (simp add: block_def)
  next
    fix y :: gol_pos and s
    assume y: "0 \<le> sint y" "sint y < sint (rows game)" and inv: "?J (nat (sint y)) s"
    let ?Y = "nat (sint y)"
    have YR: "Suc ?Y \<le> ?R" using y by (simp add: nrows_def)
    then have room: "Suc ?Y * Suc ?C \<le> ?R * Suc ?C" by (intro mult_le_mono1)
    have y0: "y \<noteq> 0 \<longleftrightarrow> ?Y \<noteq> 0"
      using y(1) by (auto simp: nat_eq_iff2 signed_eq_0_iff)
    have lenT: "length (?T ?Y) = ?Y * Suc ?C - 1" by (rule length_render_prefix)
    have pre: "(if y \<noteq> 0 then map_option (Pair (Suc (length (?T ?Y))))
                   (put (block ?cap (?T ?Y)) (length (?T ?Y)) (CHR 0x0A))
               else Some (length (?T ?Y), block ?cap (?T ?Y))) =
               Some (length (?pre ?Y), block ?cap (?pre ?Y))"
    proof (cases "?Y = 0")
      case True
      then show ?thesis using y0 by simp
    next
      case False
      have "length (?T ?Y) < ?cap" using lenT room by simp
      then show ?thesis using False y0 by (simp add: put_block)
    qed
    let ?K = "\<lambda>X s. s = (length (?pre ?Y @ take X (?line ?Y)), block ?cap (?pre ?Y @ take X (?line ?Y)))"
    have "\<exists>s'. for_pos 0 (cols game) (?inner y) (length (?pre ?Y), block ?cap (?pre ?Y)) = Some (Next s') \<and>
               ?K (nat (sint (cols game))) s'"
    proof (rule for_pos_rule [where I = ?K, OF c])
      show "?K 0 (length (?pre ?Y), block ?cap (?pre ?Y))" by simp
    next
      fix x :: gol_pos and s
      assume x: "0 \<le> sint x" "sint x < sint (cols game)" and invx: "?K (nat (sint x)) s"
      let ?X = "nat (sint x)"
      let ?t = "?pre ?Y @ take ?X (?line ?Y)"
      have XC: "?X < ?C" using x by (simp add: ncols_def)
      have pos: "unat (gol_2dto1d game x y) = ?Y * ?C + ?X"
        using unat_2dto1d [OF x(1) y(1) c] by (simp add: ncols_def)
      have "?Y * ?C + ?X < ?R * ?C"
        using XC YR by (intro index_in_range) simp_all
      then have ld: "load h (board game) (?Y * ?C + ?X) = Some (cs ! (?Y * ?C + ?X))"
        using b hp len by (simp add: load_def)
      have ch: "(if cs ! (?Y * ?C + ?X) then a else d) = ?line ?Y ! ?X"
        using XC by (simp add: render_line_def)
      have "length ?t \<le> ?Y * Suc ?C + ?X"
        using lenT XC by simp
      also have "\<dots> < Suc ?Y * Suc ?C" using XC by simp
      finally have "length ?t < ?cap" using room by simp
      then have pt: "put (block ?cap ?t) (length ?t) (?line ?Y ! ?X) = Some (block ?cap (?t @ [?line ?Y ! ?X]))"
        by (rule put_block)
      have tk: "?t @ [?line ?Y ! ?X] = ?pre ?Y @ take (Suc ?X) (?line ?Y)"
        using XC by (simp add: take_Suc_conv_app_nth)
      have "?inner y x (length ?t, block ?cap ?t) =
            Some (Next (Suc (length ?t), block ?cap (?t @ [?line ?Y ! ?X])))"
        by (simp only: pos ld ch pt prod.case option.case option.map)
      then show "\<exists>s'. ?inner y x s = Some (Next s') \<and> ?K (Suc ?X) s'"
        unfolding invx tk [symmetric] by simp
    qed
    then obtain s' where
      in1: "for_pos 0 (cols game) (?inner y) (length (?pre ?Y), block ?cap (?pre ?Y)) = Some (Next s')"
      and s': "?K (nat (sint (cols game))) s'"
      by blast
    have full: "?pre ?Y @ take (nat (sint (cols game))) (?line ?Y) = ?T (Suc ?Y)"
      by (simp add: join_lines_snoc ncols_def [symmetric])
    have "?J (Suc ?Y) s'"
      using s' unfolding full .
    with in1 have "\<exists>s'. for_pos 0 (cols game) (?inner y) (length (?pre ?Y), block ?cap (?pre ?Y)) = Some (Next s') \<and>
               ?J (Suc ?Y) s'"
      by blast
    then show "\<exists>s'. ?outer y s = Some (Next s') \<and> ?J (Suc ?Y) s'"
      unfolding inv prod.case pre option.case .
  qed
  then have loops: "for_pos 0 (rows game) ?outer (0, replicate ?cap None) =
                    Some (Next (length (?T ?R), block ?cap (?T ?R)))"
    by (auto simp: nrows_def)
  have "length (?T ?R) < ?cap"
    using length_render_prefix [of a d game cs ?R] by simp
  then have fin: "put (block ?cap (?T ?R)) (length (?T ?R)) (CHR 0x00) = Some (block ?cap (?T ?R @ [CHR 0x00]))"
    by (rule put_block)
  show ?thesis
    unfolding gol_tostring_def Let_def cap src
    using b loops fin by (simp add: render_text_def)
qed

section \<open>Population and the tick on a grid without storage\<close>

lemma for_pos_skip:
  "(\<And>v s. body v s = Some (Next s)) \<Longrightarrow> for_pos v hi body s = Some (Next s)"
proof (induction v hi body s rule: for_pos.induct)
  case (1 v hi body s)
  show ?case
  proof (cases "v <s hi")
    case False
    then show ?thesis by (simp add: for_pos.simps [of v])
  next
    case True
    have "for_pos (v + 1) hi body s = Some (Next s)"
      by (rule "1.IH" [OF True "1.prems" refl "1.prems"])
    with True "1.prems" [of v s] show ?thesis by (simp only: for_pos.simps [of v] if_True option.case ctl.case)
  qed
qed

lemma gol_populate_result:
  assumes init: "initialized h game cs" and b: "board game = Some p"
  shows "gol_populate rnd (k, h) game =
         Some (GOL_ERR_OK, k + length cs,
               h(p \<mapsto> map (\<lambda>i. rnd (k + i) mod 2 \<noteq> 0) [0..<length cs]))"
proof -
  from init b have hp: "h p = Some cs" and r: "0 \<le> sint (rows game)" and c: "0 \<le> sint (cols game)"
    and len: "length cs = nrows game * ncols game"
    by (auto elim!: initializedD)
  define new where "new = map (\<lambda>i. rnd (k + i) mod 2 \<noteq> 0) [0..<length cs]"
  have lnew: "length new = length cs" by (simp add: new_def)
  let ?I = "\<lambda>j s. s = (k + j, h(p \<mapsto> take j new @ drop j cs))"
  let ?body = "\<lambda>y x (k, h).
     let pos = gol_2dto1d game x y in
     case store h (board game) (unat pos) (rnd k mod 2 \<noteq> 0) of
       None \<Rightarrow> None
     | Some h' \<Rightarrow> Some (Next (Suc k, h'))"
  have "\<exists>s'. for_pos 0 (rows game) (\<lambda>y. for_pos 0 (cols game) (?body y)) (k, h) = Some (Next s') \<and>
             ?I (nat (sint (rows game)) * nat (sint (cols game))) s'"
  proof (rule for_pos_2d [where I = ?I, OF r c])
    show "?I 0 (k, h)" using hp by (auto simp: fun_eq_iff)
  next
    fix x y :: gol_pos and s
    assume x: "0 \<le> sint x" "sint x < sint (cols game)"
      and y: "0 \<le> sint y" "sint y < sint (rows game)"
      and inv: "?I (nat (sint y) * nat (sint (cols game)) + nat (sint x)) s"
    let ?j = "nat (sint y) * ncols game + nat (sint x)"
    have s: "s = (k + ?j, h(p \<mapsto> take ?j new @ drop ?j cs))"
      using inv by (simp add: ncols_def)
    have j: "?j < length cs"
      unfolding len using x y by (intro index_in_range) (simp_all add: ncols_def nrows_def)
    have pos: "unat (gol_2dto1d game x y) = ?j"
      using unat_2dto1d [OF x(1) y(1) c] by (simp add: ncols_def)
    have nw: "(rnd (k + ?j) mod 2 \<noteq> 0) = new ! ?j"
      using j by (simp add: new_def)
    have st: "store (h(p \<mapsto> take ?j new @ drop ?j cs)) (board game) ?j (new ! ?j) =
              Some (h(p \<mapsto> take (Suc ?j) new @ drop (Suc ?j) cs))"
      using j b lnew by (simp add: store_def sweep_step)
    have "?body y x s = Some (Next (k + Suc ?j, h(p \<mapsto> take (Suc ?j) new @ drop (Suc ?j) cs)))"
      unfolding s by (simp only: Let_def prod.case pos nw st option.case add_Suc_right)
    then show "\<exists>s'. ?body y x s = Some (Next s') \<and>
              ?I (Suc (nat (sint y) * nat (sint (cols game)) + nat (sint x))) s'"
      by (simp add: ncols_def)
  qed
  then have loops: "for_pos 0 (rows game) (\<lambda>y. for_pos 0 (cols game) (?body y)) (k, h) =
                    Some (Next (k + length cs, h(p \<mapsto> new)))"
    using len lnew by (auto simp: nrows_def ncols_def)
  show ?thesis
    unfolding gol_populate_def using b loops by (simp add: new_def)
qed

lemma gol_tick_uninitialized:
  assumes b: "board game = None"
  shows "gol_tick h a game =
         (if 0 <s rows game \<and> 0 <s cols game then None else Some (GOL_ERR_OK, h))"
proof -
  let ?inner = "\<lambda>y x hh.
     let pos = gol_2dto1d game x y in
     case load hh (board game) (unat pos) of
       None \<Rightarrow> None
     | Some is_alive \<Rightarrow>
         (case gol_countlive hh game x y of
            None \<Rightarrow> None
          | Some (Inl error) \<Rightarrow> Some (Return error hh)
          | Some (Inr live_neighbors) \<Rightarrow>
              map_option Next
                (store hh (board game) (unat pos) (gol_cellnext is_alive live_neighbors)))"
  have inner: "?inner y x hh = None" for y x hh
    using b by (simp add: load_def)
  have loops: "for_pos 0 (rows game) (\<lambda>y. for_pos 0 (cols game) (?inner y)) h =
               (if 0 <s rows game \<and> 0 <s cols game then None else Some (Next h))"
  proof (cases "0 <s cols game")
    case True
    have "for_pos 0 (cols game) (?inner y) hh = None" for y hh
      using True inner by (subst for_pos.simps) simp
    then show ?thesis
      using True by (subst for_pos.simps) simp
  next
    case False
    have skip: "for_pos 0 (cols game) (?inner y) hh = Some (Next hh)" for y hh
      using False by (subst for_pos.simps) simp
    have "for_pos 0 (rows game) (\<lambda>y. for_pos 0 (cols game) (?inner y)) h = Some (Next h)"
      by (rule for_pos_skip) (rule skip)
    with False show ?thesis by simp
  qed
  have cp: "gol_copy h a game = Some (GOL_ERR_OK, game, h)"
    using b by (simp add: gol_copy_def)
  have fr: "gol_free h game = Some (GOL_ERR_OK, \<lparr>rows = 0, cols = 0, board = None\<rparr>, h)"
    using b by (simp add: gol_free_def)
  show ?thesis
    unfolding gol_tick_def cp using loops fr by simp
qed

lemma gol_tick_never_init: "gol_tick h a game \<noteq> Some (GOL_ERR_INIT, h')"
proof (cases "board game")
  case None
  then show ?thesis by (simp add: gol_tick_uninitialized)
next
  case (Some p)
  show ?thesis
  proof (cases "gol_copy h a game")
    case None
    then show ?thesis by (simp add: gol_tick_def)
  next
    case cp: (Some res)
    obtain e copy h1 where res: "res = (e, copy, h1)" by (cases res)
    show ?thesis
    proof (cases "e = GOL_ERR_OK")
      case False
      moreover have "e \<noteq> GOL_ERR_INIT"
        using cp res Some by (auto simp: gol_copy_def Let_def split: option.splits if_splits)
      ultimately show ?thesis using cp res by (simp add: gol_tick_def)
    next
      case True
      have bc: "board copy \<noteq> None"
        using cp res Some True by (auto simp: gol_copy_def Let_def split: option.splits if_splits)
      let ?inner = "\<lambda>y x hh.
         let pos = gol_2dto1d game x y in
         case load hh (board game) (unat pos) of
           None \<Rightarrow> None
         | Some is_alive \<Rightarrow>
             (case gol_countlive hh copy x y of
                None \<Rightarrow> None
              | Some (Inl error) \<Rightarrow> Some (Return error hh)
              | Some (Inr live_neighbors) \<Rightarrow>
                  map_option Next
                    (store hh (board game) (unat pos) (gol_cellnext is_alive live_neighbors)))"
      have inner: "?inner y x hh = None \<or> (\<exists>s'. ?inner y x hh = Some (Next s'))" for y x hh
        using bc by (auto simp: Let_def gol_countlive_def split: option.splits sum.splits)
      have "for_pos 0 (cols game) (?inner y) hh = None \<or>
            (\<exists>s'. for_pos 0 (cols game) (?inner y) hh = Some (Next s'))" for y hh
        by (rule for_pos_no_return) (rule inner)
      then have "for_pos 0 (rows game) (\<lambda>y. for_pos 0 (cols game) (?inner y)) h1 = None \<or>
            (\<exists>s'. for_pos 0 (rows game) (\<lambda>y. for_pos 0 (cols game) (?inner y)) h1 = Some (Next s'))"
        by (rule for_pos_no_return)
      then show ?thesis
        using cp res True by (auto simp: gol_tick_def split: option.splits)
    qed
  qed
qed

section \<open>The claims\<close>

subsection \<open>The rule for one cell\<close>

text \<open>
  Claim C2. For every boolean \<open>is_alive\<close> and every integer \<open>n\<close>, the next state of
  a cell is alive exactly when the cell is alive and \<open>n\<close> is 2 or 3, or the cell is
  dead and \<open>n\<close> is 3; the unit table of the specification holds: (true, 0), (true, 1)
  and (true, 4) give false, (true, 2) and (true, 3) give true, (false, 3) gives true
  and (false, 2) gives false.
\<close>

theorem gol_cellnext_rule:
  "(gol_cellnext is_alive n \<longleftrightarrow>
      is_alive \<and> (n = 2 \<or> n = 3) \<or> \<not> is_alive \<and> n = 3) \<and>
   gol_cellnext True 0 = False \<and> gol_cellnext True 1 = False \<and>
   gol_cellnext True 2 = True \<and> gol_cellnext True 3 = True \<and>
   gol_cellnext True 4 = False \<and> gol_cellnext False 3 = True \<and>
   gol_cellnext False 2 = False"
proof -
  have "n \<ge> 2 \<and> n \<le> 3 \<longleftrightarrow> n = 2 \<or> n = 3" by arith
  then show ?thesis by (simp add: gol_cellnext_def)
qed

theorem gol_cellnext_rule_witness:
  "gol_cellnext True 3 \<and> \<not> gol_cellnext False 4 \<and> \<not> gol_cellnext True (- 1)"
  using gol_cellnext_rule [of True 3] gol_cellnext_rule [of False 4]
    gol_cellnext_rule [of True "- 1"]
  by simp

subsection \<open>Counting the neighbours\<close>

lemma live_neighbours_corner:
  "live_neighbours game cs 0 0 =
   int (length (filter (\<lambda>(nx, ny). live_at game cs nx ny) [(0, 1), (1, 0), (1, 1)]))"
  by (simp add: live_neighbours_def moore_def live_at_def)

text \<open>
  Claim C3. For every initialized grid and every position \<open>(x, y)\<close>, also one at
  the limits of the 16-bit range, \<open>gol_countlive\<close> returns \<^verbatim>\<open>GOL_ERR_OK\<close> without
  reading outside the block, and the count is the number of the eight Moore
  offsets whose position, computed over the integers without wrap-around, lies
  in \<open>[0, cols) \<times> [0, rows)\<close> and holds a live cell. The count lies between 0
  and 8; the table of the code lists exactly the eight offsets of the
  specification; at the corner \<open>(0, 0)\<close> only \<open>(0, 1)\<close>, \<open>(1, 0)\<close> and \<open>(1, 1)\<close>
  can contribute.
\<close>

theorem gol_countlive_moore:
  assumes "initialized h game cs"
  shows "gol_countlive h game x y = Some (Inr (live_neighbours game cs (sint x) (sint y))) \<and>
         0 \<le> live_neighbours game cs (sint x) (sint y) \<and>
         live_neighbours game cs (sint x) (sint y) \<le> 8 \<and>
         map (\<lambda>(dx, dy). (sint dx, sint dy)) neighbors = moore \<and>
         gol_countlive h game 0 0 =
           Some (Inr (int (length (filter (\<lambda>(nx, ny). live_at game cs nx ny)
                                      [(0, 1), (1, 0), (1, 1)]))))"
proof -
  have "gol_countlive h game 0 0 = Some (Inr (live_neighbours game cs 0 0))"
    using gol_countlive_eq [OF assms, of 0 0] by simp
  then show ?thesis
    using gol_countlive_eq [OF assms, of x y] live_neighbours_range [of game cs "sint x" "sint y"]
    by (simp only: neighbors_moore live_neighbours_corner simp_thms)
qed

theorem gol_countlive_moore_witness:
  "gol_countlive [0 \<mapsto> [True, False, True, False, True, False]]
     \<lparr>rows = 2, cols = 3, board = Some 0\<rparr> 1 0 = Some (Inr 3) \<and>
   gol_countlive [0 \<mapsto> [True, False, True, False, True, False]]
     \<lparr>rows = 2, cols = 3, board = Some 0\<rparr> 0 0 = Some (Inr 1)"
proof -
  let ?cs = "[True, False, True, False, True, False]"
  let ?g = "\<lparr>rows = 2, cols = 3, board = Some (0::nat)\<rparr>"
  have init: "initialized [0 \<mapsto> ?cs] ?g ?cs"
    by (simp add: initialized_def cells_def nrows_def ncols_def word_sle_eq)
  have "live_neighbours ?g ?cs 1 0 = 3"
    by (simp add: live_neighbours_def moore_def live_at_def)
  then show ?thesis
    using gol_countlive_moore [OF init, of 1 0] by (simp add: live_at_def)
qed

subsection \<open>Release\<close>

lemma gol_free_status:
  "gol_free h game = Some (e, game', h') \<Longrightarrow>
   e = GOL_ERR_OK \<and> game' = \<lparr>rows = 0, cols = 0, board = None\<rparr>"
  by (auto simp: gol_free_def Let_def split: option.splits)

text \<open>
  Claim C9. Release succeeds on every grid whose \<open>board\<close> is \<^verbatim>\<open>NULL\<close> or the
  address of a live block (its only return value is \<^verbatim>\<open>GOL_ERR_OK\<close>): it frees the
  block, if there is one, and leaves the grid uninitialized, with no cell storage
  and both dimensions 0. A second release of the same grid succeeds again,
  changes nothing in the heap and leaves the grid as it was; so does a release of
  a grid that never had storage.
\<close>

theorem gol_free_idempotent:
  assumes "board game = None \<or> (\<exists>cs. cells h game = Some cs)"
  shows "\<exists>h'. gol_free h game = Some (GOL_ERR_OK, \<lparr>rows = 0, cols = 0, board = None\<rparr>, h') \<and>
              h' = (case board game of None \<Rightarrow> h | Some p \<Rightarrow> h(p := None)) \<and>
              cells h' \<lparr>rows = 0, cols = 0, board = None\<rparr> = None \<and>
              gol_free h' \<lparr>rows = 0, cols = 0, board = None\<rparr> =
                Some (GOL_ERR_OK, \<lparr>rows = 0, cols = 0, board = None\<rparr>, h')"
  using assms by (auto simp: gol_free_def cells_def split: option.splits)

theorem gol_free_idempotent_witness:
  "gol_free [0 \<mapsto> [True, False]] \<lparr>rows = 1, cols = 2, board = Some 0\<rparr> =
     Some (GOL_ERR_OK, \<lparr>rows = 0, cols = 0, board = None\<rparr>, Map.empty) \<and>
   gol_free Map.empty \<lparr>rows = 0, cols = 0, board = None\<rparr> =
     Some (GOL_ERR_OK, \<lparr>rows = 0, cols = 0, board = None\<rparr>, Map.empty)"
proof -
  have "board \<lparr>rows = 1, cols = 2, board = Some (0::nat)\<rparr> = None \<or>
        (\<exists>cs. cells [0 \<mapsto> [True, False]] \<lparr>rows = 1, cols = 2, board = Some 0\<rparr> = Some cs)"
    by (simp add: cells_def)
  from gol_free_idempotent [OF this] show ?thesis by auto
qed

subsection \<open>Operations on a grid without storage\<close>

lemma gol_countlive_uninitialized:
  "board game = None \<Longrightarrow> gol_countlive h game x y = Some (Inl GOL_ERR_INIT)"
  by (simp add: gol_countlive_def)

lemma gol_populate_uninitialized:
  "board game = None \<Longrightarrow> gol_populate rnd s game = Some (GOL_ERR_INIT, s)"
  by (simp add: gol_populate_def)

lemma gol_tostring_uninitialized:
  "board game = None \<Longrightarrow> gol_tostring h ok game src = Some (Inl GOL_ERR_INIT)"
  by (simp add: gol_tostring_def)

text \<open>
  Claim C4. On a grid without cell storage \<open>gol_populate\<close>, \<open>gol_countlive\<close> and
  \<open>gol_tostring\<close> return \<^verbatim>\<open>GOL_ERR_INIT\<close> (the three lemmas above, for every such
  grid). \<open>gol_tick\<close> does not: on the grid that \<open>gol_free\<close> leaves behind, with
  both dimensions 0, \<open>gol_copy\<close> succeeds, the loops run no iteration,
  \<open>gol_countlive\<close> is never called and the result is \<^verbatim>\<open>GOL_ERR_OK\<close>. With both
  dimensions positive the first iteration reads \<^verbatim>\<open>game->board[pos]\<close> through
  \<^verbatim>\<open>NULL\<close> before it counts (lemma \<open>gol_tick_uninitialized\<close>), and no call of
  \<open>gol_tick\<close> at all returns \<^verbatim>\<open>GOL_ERR_INIT\<close> (lemma \<open>gol_tick_never_init\<close>).
\<close>

theorem gol_tick_released_grid:
  "gol_populate rnd s \<lparr>rows = 0, cols = 0, board = None\<rparr> = Some (GOL_ERR_INIT, s) \<and>
   gol_countlive h \<lparr>rows = 0, cols = 0, board = None\<rparr> x y = Some (Inl GOL_ERR_INIT) \<and>
   gol_tostring h ok \<lparr>rows = 0, cols = 0, board = None\<rparr> src = Some (Inl GOL_ERR_INIT) \<and>
   gol_tick h a \<lparr>rows = 0, cols = 0, board = None\<rparr> = Some (GOL_ERR_OK, h)"
  by (simp add: gol_countlive_uninitialized gol_populate_uninitialized
      gol_tostring_uninitialized gol_tick_uninitialized)

subsection \<open>Rendering\<close>

lemma render_text_chars: "set (render_text a d game cs) \<subseteq> {a, d, CHR 0x0A}"
proof -
  have "\<Union> (set ` set (map (render_line a d game cs) [0..<nrows game])) \<subseteq> {a, d}"
    by (auto simp: render_line_def)
  with set_join_lines [of "map (render_line a d game cs) [0..<nrows game]"]
  show ?thesis unfolding render_text_def by blast
qed

lemma c_string_block:
  assumes "CHR 0x00 \<notin> set t"
  shows "c_string (block n (t @ [CHR 0x00])) = Some t"
  using c_string_terminated [OF assms] by (simp add: block_def)

lemma take_block:
  "length t \<le> n \<Longrightarrow> take (length t) (block n t) = map Some t"
  by (simp add: block_def)

lemma src_chars_pair: "src_chars (Some (a # d # rest)) = Some (a, d)"
  by (simp add: src_chars_def)

lemma gol_tostring_c_string:
  assumes init: "initialized h game cs" and src: "src_chars src = Some (a, d)"
    and nz: "a \<noteq> CHR 0x00" "d \<noteq> CHR 0x00"
  shows "\<exists>str. gol_tostring h True game src = Some (Inr str) \<and>
               c_string str = Some (render_text a d game cs)"
proof -
  have "CHR 0x00 \<notin> set (render_text a d game cs)"
    using render_text_chars [of a d game cs] nz by auto
  then show ?thesis
    unfolding gol_tostring_block [OF init src] by (simp add: c_string_block)
qed

lemma length_render_text:
  "length (render_text a d game cs) = nrows game * Suc (ncols game) - 1"
  unfolding render_text_def by (rule length_render_prefix)

text \<open>
  Claim C7. For every initialized grid and every pair of display characters
  \<open>a\<close> (alive) and \<open>d\<close> (dead), \<open>gol_tostring\<close> succeeds when the buffer can be
  allocated, and the buffer starts with the rendered text followed by the
  terminator: the text is \<open>rows\<close> lines, joined by a single line break between
  adjacent lines with none before the first or after the last, each line has
  \<open>cols\<close> characters, and the character at \<open>(x, y)\<close> is \<open>a\<close> if the cell is alive
  and \<open>d\<close> otherwise. When neither character is the terminator itself, the C
  string in the buffer is exactly this text. In particular the 2 by 3 grid with
  cells true, false, true, false, true, false and the characters \<open>#\<close> and \<open>.\<close>
  renders as \<open>#.#\<close>, a line break, \<open>.#.\<close>.
\<close>

theorem gol_tostring_text:
  assumes "initialized h game cs"
  shows "(\<exists>str. gol_tostring h True game (Some (a # d # rest)) = Some (Inr str) \<and>
           take (Suc (length (render_text a d game cs))) str =
             map Some (render_text a d game cs @ [CHR 0x00]) \<and>
           (a \<noteq> CHR 0x00 \<and> d \<noteq> CHR 0x00 \<longrightarrow> c_string str = Some (render_text a d game cs)) \<and>
           render_text a d game cs = join_lines (map (render_line a d game cs) [0..<nrows game]) \<and>
           (\<forall>y < nrows game. length (render_line a d game cs y) = ncols game \<and>
              (\<forall>x < ncols game. render_line a d game cs y ! x =
                                   (if cs ! (y * ncols game + x) then a else d)))) \<and>
         (\<exists>str. gol_tostring [p \<mapsto> [True, False, True, False, True, False]] True
                  \<lparr>rows = 2, cols = 3, board = Some p\<rparr> (Some ''#.'') = Some (Inr str) \<and>
                c_string str = Some (''#.#'' @ [CHR 0x0A] @ ''.#.''))"
proof -
  let ?T = "render_text a d game cs"
  let ?n = "Suc (nrows game * Suc (ncols game))"
  have res: "gol_tostring h True game (Some (a # d # rest)) = Some (Inr (block ?n (?T @ [CHR 0x00])))"
    by (rule gol_tostring_block [OF assms src_chars_pair])
  have "length (?T @ [CHR 0x00]) \<le> ?n"
    by (simp add: length_render_text)
  from take_block [OF this]
  have tk: "take (Suc (length ?T)) (block ?n (?T @ [CHR 0x00])) = map Some (?T @ [CHR 0x00])"
    by simp
  have cstr: "c_string (block ?n (?T @ [CHR 0x00])) = Some ?T" if "a \<noteq> CHR 0x00" "d \<noteq> CHR 0x00"
  proof -
    have "CHR 0x00 \<notin> set ?T" using render_text_chars [of a d game cs] that by auto
    then show ?thesis by (rule c_string_block)
  qed
  have lines: "\<forall>y < nrows game. length (render_line a d game cs y) = ncols game \<and>
              (\<forall>x < ncols game. render_line a d game cs y ! x =
                                   (if cs ! (y * ncols game + x) then a else d))"
    by (simp add: render_line_def)
  have general: "\<exists>str. gol_tostring h True game (Some (a # d # rest)) = Some (Inr str) \<and>
           take (Suc (length ?T)) str = map Some (?T @ [CHR 0x00]) \<and>
           (a \<noteq> CHR 0x00 \<and> d \<noteq> CHR 0x00 \<longrightarrow> c_string str = Some ?T) \<and>
           ?T = join_lines (map (render_line a d game cs) [0..<nrows game]) \<and>
           (\<forall>y < nrows game. length (render_line a d game cs y) = ncols game \<and>
              (\<forall>x < ncols game. render_line a d game cs y ! x =
                                   (if cs ! (y * ncols game + x) then a else d)))"
    unfolding res using tk cstr lines by (simp add: render_text_def)
  let ?cs = "[True, False, True, False, True, False]"
  let ?g = "\<lparr>rows = 2, cols = 3, board = Some p\<rparr>"
  have init: "initialized [p \<mapsto> ?cs] ?g ?cs"
    by (simp add: initialized_def cells_def nrows_def ncols_def word_sle_eq)
  have upt: "[0..<2] = [0, 1]" "[0..<3] = [0, 1, 2]"
    by (simp_all add: upt_rec)
  have rendered: "render_text (CHR ''#'') (CHR ''.'') ?g ?cs = ''#.#'' @ [CHR 0x0A] @ ''.#.''"
    by (simp add: render_text_def render_line_def nrows_def ncols_def upt)
  have "src_chars (Some ''#.'') = Some (CHR ''#'', CHR ''.'')"
    by (simp add: src_chars_def)
  from gol_tostring_c_string [OF init this]
  have particular: "\<exists>str. gol_tostring [p \<mapsto> ?cs] True ?g (Some ''#.'') = Some (Inr str) \<and>
                     c_string str = Some (''#.#'' @ [CHR 0x0A] @ ''.#.'')"
    unfolding rendered by simp
  from general particular show ?thesis ..
qed

theorem gol_tostring_text_witness:
  "\<exists>str. gol_tostring [0 \<mapsto> [False, True, True, True]] True
            \<lparr>rows = 2, cols = 2, board = Some 0\<rparr> (Some ''*-'') = Some (Inr str) \<and>
         take 6 str = map Some (''-*'' @ [CHR 0x0A] @ ''**'' @ [CHR 0x00]) \<and>
         c_string str = Some (''-*'' @ [CHR 0x0A] @ ''**'')"
proof -
  let ?cs = "[False, True, True, True]"
  let ?g = "\<lparr>rows = 2, cols = 2, board = Some (0::nat)\<rparr>"
  have init: "initialized [0 \<mapsto> ?cs] ?g ?cs"
    by (simp add: initialized_def cells_def nrows_def ncols_def word_sle_eq)
  have upt: "[0..<2] = [0, 1]"
    by (simp add: upt_rec)
  have rendered: "render_text (CHR ''*'') (CHR ''-'') ?g ?cs = ''-*'' @ [CHR 0x0A] @ ''**''"
    by (simp add: render_text_def render_line_def nrows_def ncols_def upt)
  from gol_tostring_text [OF init, of "CHR ''*''" "CHR ''-''" "[]", THEN conjunct1]
  obtain str where
    res: "gol_tostring [0 \<mapsto> ?cs] True ?g (Some ''*-'') = Some (Inr str)"
    and tk: "take (Suc (length (render_text (CHR ''*'') (CHR ''-'') ?g ?cs))) str =
             map Some (render_text (CHR ''*'') (CHR ''-'') ?g ?cs @ [CHR 0x00])"
    and cstr: "c_string str = Some (render_text (CHR ''*'') (CHR ''-'') ?g ?cs)"
    by auto
  have "take 6 str = map Some (''-*'' @ [CHR 0x0A] @ ''**'' @ [CHR 0x00])"
    using tk unfolding rendered by (simp add: eval_nat_numeral)
  with res cstr show ?thesis unfolding rendered by blast
qed

text \<open>
  Claim C10. For every initialized grid, \<open>gol_tostring\<close> with \<^verbatim>\<open>NULL\<close> for the
  characters behaves exactly as with the pair \<open>X\<close> (alive) and \<open>O\<close> (dead): it
  succeeds when the buffer can be allocated, and the C string it produces is the
  text rendered with this pair, which the grid determines.
\<close>

theorem gol_tostring_default:
  assumes "initialized h game cs"
  shows "gol_tostring h ok game None = gol_tostring h ok game (Some [CHR ''X'', CHR ''O'']) \<and>
         (\<exists>str. gol_tostring h True game None = Some (Inr str) \<and>
                c_string str = Some (render_text (CHR ''X'') (CHR ''O'') game cs))"
proof -
  have "src_chars None = Some (CHR ''X'', CHR ''O'')"
    by (simp add: src_chars_def)
  from gol_tostring_c_string [OF assms this]
  show ?thesis by (simp add: gol_tostring_def src_chars_def)
qed

theorem gol_tostring_default_witness:
  "\<exists>str. gol_tostring [0 \<mapsto> [True, False, True, False, True, False]] True
            \<lparr>rows = 2, cols = 3, board = Some 0\<rparr> None = Some (Inr str) \<and>
         c_string str = Some (''XOX'' @ [CHR 0x0A] @ ''OXO'')"
proof -
  let ?cs = "[True, False, True, False, True, False]"
  let ?g = "\<lparr>rows = 2, cols = 3, board = Some (0::nat)\<rparr>"
  have init: "initialized [0 \<mapsto> ?cs] ?g ?cs"
    by (simp add: initialized_def cells_def nrows_def ncols_def word_sle_eq)
  have upt: "[0..<2] = [0, 1]" "[0..<3] = [0, 1, 2]"
    by (simp_all add: upt_rec)
  have rendered: "render_text (CHR ''X'') (CHR ''O'') ?g ?cs = ''XOX'' @ [CHR 0x0A] @ ''OXO''"
    by (simp add: render_text_def render_line_def nrows_def ncols_def upt)
  from gol_tostring_default [OF init, of True, THEN conjunct2]
  show ?thesis unfolding rendered .
qed

subsection \<open>The tick\<close>

lemma sint_word_of_nat16:
  assumes "n < 32768"
  shows "sint (word_of_nat n :: 16 word) = int n"
proof -
  have "sint (word_of_int (int n) :: 16 word) = signed_take_bit (LENGTH(16) - 1) (int n)"
    by (rule sint_sbintrunc')
  also have "\<dots> = int n"
    using assms by (simp add: signed_take_bit_int_eq_self)
  finally show ?thesis by simp
qed

lemma index_covered:
  assumes r: "0 \<le> sint (rows game)" and c: "0 \<le> sint (cols game)"
    and i: "i < nrows game * ncols game"
  shows "\<exists>x y. 0 \<le> sint x \<and> sint x < sint (cols game) \<and> 0 \<le> sint y \<and> sint y < sint (rows game) \<and>
               unat (gol_2dto1d game x y) = i"
proof -
  let ?C = "ncols game" and ?R = "nrows game"
  have C0: "0 < ?C" using i by (cases "?C = 0") simp_all
  have X: "i mod ?C < ?C" using C0 by simp
  have Y: "i div ?C < ?R" using i C0 by (simp add: less_mult_imp_div_less)
  have C16: "?C \<le> 32767" and R16: "?R \<le> 32767"
    using sint16_bounds [of "cols game"] sint16_bounds [of "rows game"]
    by (auto simp: ncols_def nrows_def)
  let ?x = "word_of_nat (i mod ?C) :: gol_pos" and ?y = "word_of_nat (i div ?C) :: gol_pos"
  have sx: "sint ?x = int (i mod ?C)" using X C16 by (intro sint_word_of_nat16) simp
  have sy: "sint ?y = int (i div ?C)" using Y R16 by (intro sint_word_of_nat16) simp
  have "unat (gol_2dto1d game ?x ?y) = nat (sint ?y) * nat (sint (cols game)) + nat (sint ?x)"
    using c by (intro unat_2dto1d) (simp_all add: sx sy)
  also have "\<dots> = i div ?C * ?C + i mod ?C"
    by (simp add: sx sy ncols_def [symmetric])
  also have "\<dots> = i" by simp
  finally have "unat (gol_2dto1d game ?x ?y) = i" .
  moreover have "sint ?x < sint (cols game)"
    unfolding sx using X c by (simp add: ncols_def)
  moreover have "sint ?y < sint (rows game)"
    unfolding sy using Y r by (simp add: nrows_def)
  moreover have "0 \<le> sint ?x" "0 \<le> sint ?y" by (simp_all add: sx sy)
  ultimately show ?thesis by blast
qed

text \<open>
  Claim C1. For every initialized grid, a tick whose snapshot can be allocated
  returns \<^verbatim>\<open>GOL_ERR_OK\<close> and changes the heap in the grid's own block only (the
  snapshot is freed again). The block then holds as many cells as before, and
  the cell of every position \<open>(x, y)\<close> of the grid is \<open>gol_cellnext\<close> applied to
  the value of that cell before the tick and to the number of live Moore
  neighbours of \<open>(x, y)\<close> in the cells as they were before the tick
  (\<open>live_neighbours\<close>, counted over the integers inside the grid), which is also
  what \<open>gol_countlive\<close> returns for \<open>(x, y)\<close> on the grid before the tick. Every
  cell of the block belongs to such a position, so every cell is overwritten,
  the new block is the next generation \<open>next_gen\<close> of the old one, and none of
  the new values depends on a value written during the same tick.
\<close>

theorem gol_tick_synchronous:
  assumes init: "initialized h game cs" and b: "board game = Some p" and q: "q \<notin> dom h"
  shows "\<exists>cs'. gol_tick h (Some q) game = Some (GOL_ERR_OK, h(p \<mapsto> cs')) \<and>
           length cs' = length cs \<and>
           cs' = next_gen game cs \<and>
           (\<forall>x y. 0 \<le> sint x \<and> sint x < sint (cols game) \<and> 0 \<le> sint y \<and> sint y < sint (rows game) \<longrightarrow>
              gol_countlive h game x y =
                Some (Inr (live_neighbours game cs (sint x) (sint y))) \<and>
              cs' ! unat (gol_2dto1d game x y) =
                gol_cellnext (cs ! unat (gol_2dto1d game x y))
                  (live_neighbours game cs (sint x) (sint y))) \<and>
           (\<forall>i < length cs. \<exists>x y. 0 \<le> sint x \<and> sint x < sint (cols game) \<and>
                                   0 \<le> sint y \<and> sint y < sint (rows game) \<and>
                                   unat (gol_2dto1d game x y) = i)"
proof -
  from init have r: "0 \<le> sint (rows game)" and c: "0 \<le> sint (cols game)"
    and len: "length cs = nrows game * ncols game"
    by (auto elim!: initializedD)
  have cell: "next_gen game cs ! unat (gol_2dto1d game x y) =
                gol_cellnext (cs ! unat (gol_2dto1d game x y))
                  (live_neighbours game cs (sint x) (sint y))"
    if x: "0 \<le> sint x" "sint x < sint (cols game)" and y: "0 \<le> sint y" "sint y < sint (rows game)"
    for x y
  proof -
    let ?k = "nat (sint y) * ncols game + nat (sint x)"
    have pos: "unat (gol_2dto1d game x y) = ?k"
      using unat_2dto1d [OF x(1) y(1) c] by (simp add: ncols_def)
    have xc: "nat (sint x) < ncols game" using x by (simp add: ncols_def)
    have k: "?k < length cs"
      unfolding len using x y by (intro index_in_range) (simp_all add: ncols_def nrows_def)
    have "next_gen game cs ! ?k = gol_cellnext (cs ! ?k) (live_neighbours game cs (sint x) (sint y))"
      using next_gen_nth [OF xc k] x(1) y(1) by simp
    then show ?thesis unfolding pos .
  qed
  have cover: "\<forall>i < length cs. \<exists>x y. 0 \<le> sint x \<and> sint x < sint (cols game) \<and>
                                   0 \<le> sint y \<and> sint y < sint (rows game) \<and>
                                   unat (gol_2dto1d game x y) = i"
    unfolding len using index_covered [OF r c] by blast
  show ?thesis
  proof (intro exI [of _ "next_gen game cs"] conjI allI impI)
    show "gol_tick h (Some q) game = Some (GOL_ERR_OK, h(p \<mapsto> next_gen game cs))"
      by (rule gol_tick_next_gen [OF init b q])
    show "length (next_gen game cs) = length cs" by simp
    show "next_gen game cs = next_gen game cs" ..
  next
    fix x y :: gol_pos
    show "gol_countlive h game x y = Some (Inr (live_neighbours game cs (sint x) (sint y)))"
      by (rule gol_countlive_eq [OF init])
  next
    fix x y :: gol_pos
    assume "0 \<le> sint x \<and> sint x < sint (cols game) \<and> 0 \<le> sint y \<and> sint y < sint (rows game)"
    then show "next_gen game cs ! unat (gol_2dto1d game x y) =
                 gol_cellnext (cs ! unat (gol_2dto1d game x y))
                   (live_neighbours game cs (sint x) (sint y))"
      using cell by blast
  next
    fix i assume "i < length cs"
    with cover show "\<exists>x y. 0 \<le> sint x \<and> sint x < sint (cols game) \<and>
                                   0 \<le> sint y \<and> sint y < sint (rows game) \<and>
                                   unat (gol_2dto1d game x y) = i"
      by blast
  qed
qed

theorem gol_tick_synchronous_witness:
  "gol_tick [0 \<mapsto> [True, False, False, True, True, False]] (Some 1)
     \<lparr>rows = 2, cols = 3, board = Some 0\<rparr> =
     Some (GOL_ERR_OK, [0 \<mapsto> [True, True, False, True, True, False]]) \<and>
   gol_countlive [0 \<mapsto> [True, False, False, True, True, False]]
     \<lparr>rows = 2, cols = 3, board = Some 0\<rparr> 1 0 = Some (Inr 3) \<and>
   gol_countlive [0 \<mapsto> [True, False, False, True, True, False]]
     \<lparr>rows = 2, cols = 3, board = Some 0\<rparr> 2 1 = Some (Inr 1)"
proof -
  let ?cs = "[True, False, False, True, True, False]"
  let ?g = "\<lparr>rows = 2, cols = 3, board = Some (0::nat)\<rparr>"
  have init: "initialized [0 \<mapsto> ?cs] ?g ?cs"
    by (simp add: initialized_def cells_def nrows_def ncols_def word_sle_eq)
  have b: "board ?g = Some 0" by simp
  have q: "(1::nat) \<notin> dom [0 \<mapsto> ?cs]" by simp
  from gol_tick_synchronous [OF init b q]
  obtain cs' where res: "gol_tick [0 \<mapsto> ?cs] (Some 1) ?g = Some (GOL_ERR_OK, [0 \<mapsto> ?cs, 0 \<mapsto> cs'])"
    and gen: "cs' = next_gen ?g ?cs"
    and cell: "\<And>x y. 0 \<le> sint x \<and> sint x < sint (cols ?g) \<and> 0 \<le> sint y \<and> sint y < sint (rows ?g) \<Longrightarrow>
              gol_countlive [0 \<mapsto> ?cs] ?g x y =
                Some (Inr (live_neighbours ?g ?cs (sint x) (sint y)))"
    by blast
  have "next_gen ?g ?cs = [True, True, False, True, True, False]"
    by (simp add: next_gen_def ncols_def live_neighbours_def moore_def live_at_def
        gol_cellnext_def upt_rec)
  with res gen have tick: "gol_tick [0 \<mapsto> ?cs] (Some 1) ?g =
                     Some (GOL_ERR_OK, [0 \<mapsto> [True, True, False, True, True, False]])"
    by simp
  have "live_neighbours ?g ?cs 1 0 = 3" and "live_neighbours ?g ?cs 2 1 = 1"
    by (simp_all add: live_neighbours_def moore_def live_at_def)
  with cell [of 1 0] cell [of 2 1]
  have "gol_countlive [0 \<mapsto> ?cs] ?g 1 0 = Some (Inr 3)"
    and "gol_countlive [0 \<mapsto> ?cs] ?g 2 1 = Some (Inr 1)"
    by simp_all
  with tick show ?thesis by (intro conjI)
qed

lemma blinker_lists:
  "blinker_horizontal =
     [False, False, False, False, False,
      False, False, False, False, False,
      False, True, True, True, False,
      False, False, False, False, False,
      False, False, False, False, False]"
  "blinker_vertical =
     [False, False, False, False, False,
      False, False, True, False, False,
      False, False, True, False, False,
      False, False, True, False, False,
      False, False, False, False, False]"
  by (simp_all add: blinker_horizontal_def blinker_vertical_def upt_rec)

lemma next_gen_blinker_h:
  "next_gen \<lparr>rows = 5, cols = 5, board = b\<rparr> blinker_horizontal = blinker_vertical"
  unfolding blinker_lists
  by (simp add: next_gen_def ncols_def live_neighbours_def moore_def live_at_def gol_cellnext_def upt_rec)

lemma next_gen_blinker_v:
  "next_gen \<lparr>rows = 5, cols = 5, board = b\<rparr> blinker_vertical = blinker_horizontal"
  unfolding blinker_lists
  by (simp add: next_gen_def ncols_def live_neighbours_def moore_def live_at_def gol_cellnext_def upt_rec)

lemma initialized_blinker:
  assumes "h p = Some cs" "length cs = 25"
  shows "initialized h \<lparr>rows = 5, cols = 5, board = Some p\<rparr> cs"
  using assms by (simp add: initialized_def cells_def nrows_def ncols_def word_sle_eq)

text \<open>
  Claim C5. On a 5 by 5 grid whose live cells are exactly those of the horizontal
  blinker (row 2, columns 1 to 3), a successful tick leaves exactly the vertical
  blinker (column 2, rows 1 to 3) and a second successful tick leaves exactly
  the horizontal blinker again; nothing else in the heap changes.
\<close>

theorem blinker_period_two:
  assumes hp: "h p = Some blinker_horizontal" and q: "q \<notin> dom h" and q': "q' \<notin> dom h"
  shows "gol_tick h (Some q) \<lparr>rows = 5, cols = 5, board = Some p\<rparr> =
           Some (GOL_ERR_OK, h(p \<mapsto> blinker_vertical)) \<and>
         gol_tick (h(p \<mapsto> blinker_vertical)) (Some q') \<lparr>rows = 5, cols = 5, board = Some p\<rparr> =
           Some (GOL_ERR_OK, h(p \<mapsto> blinker_horizontal)) \<and>
         blinker_horizontal =
           [False, False, False, False, False,
            False, False, False, False, False,
            False, True, True, True, False,
            False, False, False, False, False,
            False, False, False, False, False] \<and>
         blinker_vertical =
           [False, False, False, False, False,
            False, False, True, False, False,
            False, False, True, False, False,
            False, False, True, False, False,
            False, False, False, False, False]"
proof -
  let ?g = "\<lparr>rows = 5, cols = 5, board = Some p\<rparr>"
  have b: "board ?g = Some p" by simp
  have i1: "initialized h ?g blinker_horizontal"
    using hp by (intro initialized_blinker) (simp_all add: blinker_horizontal_def)
  have i2: "initialized (h(p \<mapsto> blinker_vertical)) ?g blinker_vertical"
    by (intro initialized_blinker) (simp_all add: blinker_vertical_def)
  have q2: "q' \<notin> dom (h(p \<mapsto> blinker_vertical))"
    using q' hp by auto
  have t1: "gol_tick h (Some q) ?g = Some (GOL_ERR_OK, h(p \<mapsto> blinker_vertical))"
    using gol_tick_next_gen [OF i1 b q] by (simp only: next_gen_blinker_h)
  have t2: "gol_tick (h(p \<mapsto> blinker_vertical)) (Some q') ?g =
            Some (GOL_ERR_OK, h(p \<mapsto> blinker_horizontal))"
    using gol_tick_next_gen [OF i2 b q2] by (simp only: next_gen_blinker_v fun_upd_upd)
  from t1 t2 blinker_lists show ?thesis by (intro conjI)
qed

theorem blinker_period_two_witness:
  "gol_tick [0 \<mapsto> blinker_horizontal] (Some 1) \<lparr>rows = 5, cols = 5, board = Some 0\<rparr> =
     Some (GOL_ERR_OK, [0 \<mapsto> blinker_vertical]) \<and>
   gol_tick [0 \<mapsto> blinker_vertical] (Some 1) \<lparr>rows = 5, cols = 5, board = Some 0\<rparr> =
     Some (GOL_ERR_OK, [0 \<mapsto> blinker_horizontal])"
proof -
  have "[0 \<mapsto> blinker_horizontal] (0::nat) = Some blinker_horizontal"
    and "(1::nat) \<notin> dom [0 \<mapsto> blinker_horizontal]"
    by simp_all
  from blinker_period_two [OF this this(2)] show ?thesis
    by (simp only: fun_upd_upd)
qed

subsection \<open>Duplication\<close>

text \<open>
  Claim C6. For every initialized source grid, a copy whose block can be
  allocated returns \<^verbatim>\<open>GOL_ERR_OK\<close> and a grid with the rows and cols of the source
  whose cells equal the source's position for position, in a block of its own
  (\<open>q\<close>, different from the source's \<open>p\<close>). The source keeps its cells, and it
  still has them after any write to a cell of the copy, after \<open>gol_populate\<close> on
  the copy with any random sequence, after a tick of the copy and after the
  release of the copy.
\<close>

theorem gol_copy_independent:
  assumes init: "initialized h src cs" and b: "board src = Some p" and q: "q \<notin> dom h"
  shows "\<exists>dest h'. gol_copy h (Some q) src = Some (GOL_ERR_OK, dest, h') \<and>
           rows dest = rows src \<and> cols dest = cols src \<and>
           cells h' dest = Some cs \<and> cells h' src = Some cs \<and>
           board dest = Some q \<and> q \<noteq> p \<and>
           (\<forall>i v h''. store h' (board dest) i v = Some h'' \<longrightarrow> cells h'' src = Some cs) \<and>
           (\<forall>rnd k. \<exists>k' h''. gol_populate rnd (k, h') dest = Some (GOL_ERR_OK, k', h'') \<and>
                              cells h'' src = Some cs) \<and>
           (\<forall>q2. q2 \<notin> dom h' \<longrightarrow>
              (\<exists>h''. gol_tick h' (Some q2) dest = Some (GOL_ERR_OK, h'') \<and> cells h'' src = Some cs)) \<and>
           (\<exists>dest' h''. gol_free h' dest = Some (GOL_ERR_OK, dest', h'') \<and> cells h'' src = Some cs)"
proof -
  let ?dest = "src\<lparr>board := Some q\<rparr>" and ?h' = "h(q \<mapsto> cs)"
  from init b have hp: "h p = Some cs" by (auto elim!: initializedD)
  with q have pq: "q \<noteq> p" by auto
  have cp: "gol_copy h (Some q) src = Some (GOL_ERR_OK, ?dest, ?h')"
    by (rule gol_copy_initialized [OF init b])
  have bd: "board ?dest = Some q" by simp
  have id: "initialized ?h' ?dest cs"
    using init by (simp add: initialized_def cells_def nrows_def ncols_def)
  have src: "cells ?h' src = Some cs"
    using b hp pq by (simp add: cells_def)
  have keep: "cells (?h'(q \<mapsto> xs)) src = Some cs" for xs
    using b hp pq by (simp add: cells_def)
  have st: "\<forall>i v h''. store ?h' (board ?dest) i v = Some h'' \<longrightarrow> cells h'' src = Some cs"
    using keep by (auto simp: store_def split: if_splits)
  have pop: "\<forall>rnd k. \<exists>k' h''. gol_populate rnd (k, ?h') ?dest = Some (GOL_ERR_OK, k', h'') \<and>
                              cells h'' src = Some cs"
    using gol_populate_result [OF id bd] keep by simp
  have tick: "\<forall>q2. q2 \<notin> dom ?h' \<longrightarrow>
              (\<exists>h''. gol_tick ?h' (Some q2) ?dest = Some (GOL_ERR_OK, h'') \<and> cells h'' src = Some cs)"
    using gol_tick_next_gen [OF id bd] keep by simp
  have "gol_free ?h' ?dest = Some (GOL_ERR_OK, \<lparr>rows = 0, cols = 0, board = None\<rparr>, ?h'(q := None))"
    by (simp add: gol_free_def)
  moreover have "cells (?h'(q := None)) src = Some cs"
    using b hp pq by (simp add: cells_def)
  ultimately have fr: "\<exists>dest' h''. gol_free ?h' ?dest = Some (GOL_ERR_OK, dest', h'') \<and>
                                   cells h'' src = Some cs"
    by blast
  have dst: "cells ?h' ?dest = Some cs" by (simp add: cells_def)
  show ?thesis
    apply (rule exI [of _ ?dest], rule exI [of _ ?h'])
    using cp src dst pq st pop tick fr bd by simp
qed

theorem gol_copy_independent_witness:
  "\<exists>dest h'. gol_copy [0 \<mapsto> [True, False]] (Some 1) \<lparr>rows = 1, cols = 2, board = Some 0\<rparr> =
               Some (GOL_ERR_OK, dest, h') \<and>
             cells h' dest = Some [True, False] \<and> board dest = Some 1 \<and>
             (\<exists>k' h''. gol_populate (\<lambda>k. 1) (0, h') dest = Some (GOL_ERR_OK, k', h'') \<and>
                       cells h'' \<lparr>rows = 1, cols = 2, board = Some 0\<rparr> = Some [True, False])"
proof -
  let ?cs = "[True, False]"
  let ?g = "\<lparr>rows = 1, cols = 2, board = Some (0::nat)\<rparr>"
  have init: "initialized [0 \<mapsto> ?cs] ?g ?cs"
    by (simp add: initialized_def cells_def nrows_def ncols_def word_sle_eq)
  have b: "board ?g = Some 0" by simp
  have q: "(1::nat) \<notin> dom [0 \<mapsto> ?cs]" by simp
  from gol_copy_independent [OF init b q] show ?thesis
    by blast
qed

subsection \<open>The shape of the cell storage\<close>

text \<open>
  Claim C8. A grid is initialized when it has cell storage, no negative dimension
  and exactly \<open>rows * cols\<close> cells (the last part of the theorem spells this
  out). This holds after a successful \<open>gol_init\<close> with dimensions that are not
  negative, where all cells are dead; after a successful \<open>gol_copy\<close> for the
  source and for the copy; after a successful \<open>gol_tick\<close>; and after
  \<open>gol_populate\<close>.
\<close>

theorem shape_invariant:
  "(0 \<le>s r \<and> 0 \<le>s c \<longrightarrow>
      (\<exists>g' h'. gol_init h (Some p) game r c = (GOL_ERR_OK, g', h') \<and>
               rows g' = r \<and> cols g' = c \<and>
               initialized h' g' (replicate (nrows g' * ncols g') False))) \<and>
   (initialized h game cs \<and> q \<notin> dom h \<longrightarrow>
      (\<exists>dest h'. gol_copy h (Some q) game = Some (GOL_ERR_OK, dest, h') \<and>
                 initialized h' game cs \<and> initialized h' dest cs)) \<and>
   (initialized h game cs \<and> q \<notin> dom h \<longrightarrow>
      (\<exists>h' cs'. gol_tick h (Some q) game = Some (GOL_ERR_OK, h') \<and> initialized h' game cs')) \<and>
   (initialized h game cs \<longrightarrow>
      (\<exists>k' h' cs'. gol_populate rnd (k, h) game = Some (GOL_ERR_OK, k', h') \<and>
                   initialized h' game cs')) \<and>
   (initialized h game cs \<longrightarrow>
      cells h game = Some cs \<and> int (length cs) = sint (rows game) * sint (cols game))"
proof (intro conjI impI)
  assume "0 \<le>s r \<and> 0 \<le>s c"
  then have rc: "0 \<le> sint r" "0 \<le> sint c" by (simp_all add: word_sle_eq)
  let ?g = "\<lparr>rows = r, cols = c, board = Some p\<rparr>"
  let ?n = "nrows ?g * ncols ?g"
  have "unat ((scast r :: 64 word) * scast c) = ?n"
    using unat_size [OF rc] by (simp add: nrows_def ncols_def)
  then have "gol_init h (Some p) game r c = (GOL_ERR_OK, ?g, h(p \<mapsto> replicate ?n False))"
    by (simp add: gol_init_def)
  moreover have "initialized (h(p \<mapsto> replicate ?n False)) ?g (replicate ?n False)"
    using rc by (simp add: initialized_def cells_def word_sle_eq)
  ultimately show "\<exists>g' h'. gol_init h (Some p) game r c = (GOL_ERR_OK, g', h') \<and>
               rows g' = r \<and> cols g' = c \<and>
               initialized h' g' (replicate (nrows g' * ncols g') False)"
    by simp
next
  assume a: "initialized h game cs \<and> q \<notin> dom h"
  then obtain p' where b: "board game = Some p'" and hp: "h p' = Some cs"
    by (auto elim!: initializedD)
  with a have pq: "q \<noteq> p'" by auto
  have "gol_copy h (Some q) game = Some (GOL_ERR_OK, game\<lparr>board := Some q\<rparr>, h(q \<mapsto> cs))"
    using a b by (intro gol_copy_initialized) simp_all
  moreover have "initialized (h(q \<mapsto> cs)) game cs"
    using a b pq by (simp add: initialized_def cells_def)
  moreover have "initialized (h(q \<mapsto> cs)) (game\<lparr>board := Some q\<rparr>) cs"
    using a by (simp add: initialized_def cells_def nrows_def ncols_def)
  ultimately show "\<exists>dest h'. gol_copy h (Some q) game = Some (GOL_ERR_OK, dest, h') \<and>
                 initialized h' game cs \<and> initialized h' dest cs"
    by blast
next
  assume a: "initialized h game cs \<and> q \<notin> dom h"
  then obtain p' where b: "board game = Some p'"
    by (auto elim!: initializedD)
  have "gol_tick h (Some q) game = Some (GOL_ERR_OK, h(p' \<mapsto> next_gen game cs))"
    using a b by (intro gol_tick_next_gen) simp_all
  moreover have "initialized (h(p' \<mapsto> next_gen game cs)) game (next_gen game cs)"
    using a b by (simp add: initialized_def cells_def)
  ultimately show "\<exists>h' cs'. gol_tick h (Some q) game = Some (GOL_ERR_OK, h') \<and> initialized h' game cs'"
    by blast
next
  assume a: "initialized h game cs"
  then obtain p' where b: "board game = Some p'"
    by (auto elim!: initializedD)
  let ?new = "map (\<lambda>i. rnd (k + i) mod 2 \<noteq> 0) [0..<length cs]"
  have "gol_populate rnd (k, h) game = Some (GOL_ERR_OK, k + length cs, h(p' \<mapsto> ?new))"
    by (rule gol_populate_result [OF a b])
  moreover have "initialized (h(p' \<mapsto> ?new)) game ?new"
    using a b by (simp add: initialized_def cells_def)
  ultimately show "\<exists>k' h' cs'. gol_populate rnd (k, h) game = Some (GOL_ERR_OK, k', h') \<and>
                   initialized h' game cs'"
    by blast
next
  assume a: "initialized h game cs"
  then show "cells h game = Some cs" by (simp add: initialized_def)
next
  assume a: "initialized h game cs"
  then show "int (length cs) = sint (rows game) * sint (cols game)"
    by (simp add: initialized_def nrows_def ncols_def word_sle_eq nat_mult_distrib [symmetric])
qed

theorem shape_invariant_witness:
  "\<exists>g' h'. gol_init Map.empty (Some 0) \<lparr>rows = 0, cols = 0, board = None\<rparr> 2 3 =
             (GOL_ERR_OK, g', h') \<and>
           initialized h' g' (replicate 6 False) \<and>
           (\<exists>h'' cs'. gol_tick h' (Some 1) g' = Some (GOL_ERR_OK, h'') \<and> initialized h'' g' cs' \<and>
                      length cs' = 6)"
proof -
  have pre: "(0::gol_pos) \<le>s 2 \<and> (0::gol_pos) \<le>s 3" by (simp add: word_sle_eq)
  from shape_invariant [where r = 2 and c = 3 and h = Map.empty and p = 0
      and game = "\<lparr>rows = 0, cols = 0, board = None\<rparr>", THEN conjunct1, rule_format, OF pre]
  obtain g' h' where gi: "gol_init Map.empty (Some 0) \<lparr>rows = 0, cols = 0, board = None\<rparr> 2 3 = (GOL_ERR_OK, g', h')"
    and rc: "rows g' = 2" "cols g' = 3"
    and ini: "initialized h' g' (replicate (nrows g' * ncols g') False)"
    by blast
  have n: "nrows g' * ncols g' = 6" using rc by (simp add: nrows_def ncols_def)
  have h': "h' = [0 \<mapsto> replicate (unat ((scast (2::gol_pos) :: 64 word) * scast (3::gol_pos))) False]"
    using gi by (simp add: gol_init_def)
  have fresh: "(1::nat) \<notin> dom h'" unfolding h' by simp
  from shape_invariant [where h = h' and game = g' and cs = "replicate 6 False" and q = 1,
      THEN conjunct2, THEN conjunct2, THEN conjunct1, rule_format]
    ini fresh n
  obtain h'' cs' where tk: "gol_tick h' (Some 1) g' = Some (GOL_ERR_OK, h'')" and ini': "initialized h'' g' cs'"
    by auto
  from shape_invariant [where h = h'' and game = g' and cs = cs',
      THEN conjunct2, THEN conjunct2, THEN conjunct2, THEN conjunct2, rule_format, OF ini']
  have "int (length cs') = sint (rows g') * sint (cols g')" by simp
  then have "length cs' = 6" using rc by simp
  with gi ini n tk ini' show ?thesis by auto
qed

end
